theory Spec2Isabelle
  imports Complex_Main "HOL-Library.Product_Lexorder" "HOL-Library.Multiset"
begin

section \<open>Errors and basic values\<close>

text \<open>
  The Python exceptions that the modelled code can raise. A function that can raise
  returns \<open>py_error + 'a\<close>, with \<open>Inl\<close> for the exception.
\<close>

datatype py_error = IndexError | KeyError | ValueError

text \<open>
  A naive \<open>datetime\<close> has the fields year, month, day, hour, minute, second and
  microsecond. Python compares two naive datetimes by comparing the tuples of these
  fields, in this order. Parsing of ISO-8601 text (\<open>datetime.fromisoformat\<close>) is a
  library call made before the engine stores anything; the embedding starts from the
  parsed, naive value.
\<close>

datatype datetime =
  DateTime (year: int) (month: int) (day: int) (hour: int) (minute: int) (second: int)
    (microsecond: int)

definition dt_tuple :: "datetime \<Rightarrow> int \<times> int \<times> int \<times> int \<times> int \<times> int \<times> int" where
  "dt_tuple d = (year d, month d, day d, hour d, minute d, second d, microsecond d)"

instantiation datetime :: linorder
begin

definition less_eq_datetime :: "datetime \<Rightarrow> datetime \<Rightarrow> bool" where
  "less_eq_datetime a b \<longleftrightarrow> dt_tuple a \<le> dt_tuple b"

definition less_datetime :: "datetime \<Rightarrow> datetime \<Rightarrow> bool" where
  "less_datetime a b \<longleftrightarrow> dt_tuple a < dt_tuple b"

instance
proof
  fix x y z :: datetime
  show "(x < y) = (x \<le> y \<and> \<not> y \<le> x)"
    unfolding less_eq_datetime_def less_datetime_def by (rule less_le_not_le)
  show "x \<le> x" unfolding less_eq_datetime_def by (rule order_refl)
  show "x \<le> y \<Longrightarrow> y \<le> z \<Longrightarrow> x \<le> z"
    unfolding less_eq_datetime_def by (rule order_trans)
  show "x \<le> y \<or> y \<le> x" unfolding less_eq_datetime_def by (rule linear)
  show "x \<le> y \<Longrightarrow> y \<le> x \<Longrightarrow> x = y"
  proof -
    assume "x \<le> y" and "y \<le> x"
    then have "dt_tuple x = dt_tuple y" unfolding less_eq_datetime_def by (rule antisym)
    then show "x = y" by (cases x, cases y) (simp add: dt_tuple_def)
  qed
qed

end

text \<open>
  The day number of a date in the proleptic Gregorian calendar, as \<open>toordinal\<close>
  computes it (day 1 is 0001-01-01), and the microseconds from the start of day 0.
\<close>

definition is_leap :: "int \<Rightarrow> bool" where
  "is_leap y = (y mod 4 = 0 \<and> (y mod 100 \<noteq> 0 \<or> y mod 400 = 0))"

definition days_before_year :: "int \<Rightarrow> int" where
  "days_before_year y = (let z = y - 1 in z * 365 + z div 4 - z div 100 + z div 400)"

definition days_before_month_tab :: "int list" where
  "days_before_month_tab = [0, 31, 59, 90, 120, 151, 181, 212, 243, 273, 304, 334]"

definition days_before_month :: "int \<Rightarrow> int \<Rightarrow> int" where
  "days_before_month y m =
     days_before_month_tab ! nat (m - 1) + (if m > 2 \<and> is_leap y then 1 else 0)"

definition toordinal :: "datetime \<Rightarrow> int" where
  "toordinal dt = days_before_year (year dt) + days_before_month (year dt) (month dt) + day dt"

definition total_microseconds :: "datetime \<Rightarrow> int" where
  "total_microseconds dt =
     ((toordinal dt * 86400) + hour dt * 3600 + minute dt * 60 + second dt) * 1000000
       + microsecond dt"

text \<open>
  \<open>(a - b).days\<close>: the difference of two naive datetimes is a \<open>timedelta\<close>
  normalised so that seconds and microseconds are non-negative; its \<open>days\<close> field is
  therefore the floor of the difference measured in days (negative when \<open>a\<close> is
  earlier than \<open>b\<close>).
\<close>

definition days_between :: "datetime \<Rightarrow> datetime \<Rightarrow> int" where
  "days_between a b = (total_microseconds a - total_microseconds b) div 86400000000"

text \<open>
  The values that the \<open>datetime\<close> constructor accepts: a year from 1 to 9999, a month
  from 1 to 12, a day of that month, and a time of day.
\<close>

definition days_in_month :: "int \<Rightarrow> int \<Rightarrow> int" where
  "days_in_month y m =
     (if m = 2 \<and> is_leap y then 29
      else [31, 28, 31, 30, 31, 30, 31, 31, 30, 31, 30, 31] ! nat (m - 1))"

definition valid_datetime :: "datetime \<Rightarrow> bool" where
  "valid_datetime d \<longleftrightarrow>
     1 \<le> year d \<and> year d \<le> 9999 \<and> 1 \<le> month d \<and> month d \<le> 12
     \<and> 1 \<le> day d \<and> day d \<le> days_in_month (year d) (month d)
     \<and> 0 \<le> hour d \<and> hour d < 24 \<and> 0 \<le> minute d \<and> minute d < 60
     \<and> 0 \<le> second d \<and> second d < 60 \<and> 0 \<le> microsecond d \<and> microsecond d < 1000000"

section \<open>Severity classification\<close>

datatype Severity = MILD | MODERATE | CRITICAL

definition severity_value :: "Severity \<Rightarrow> string" where
  "severity_value s = (case s of MILD \<Rightarrow> ''mild'' | MODERATE \<Rightarrow> ''moderate''
                       | CRITICAL \<Rightarrow> ''critical'')"

text \<open>
  \<open>str.lower\<close> on ASCII text: the letters A to Z move to a to z and every other
  character stays. Diagnosis texts are modelled as ASCII strings.
\<close>

definition lower_char :: "char \<Rightarrow> char" where
  "lower_char c =
     (if 65 \<le> (of_char c :: nat) \<and> (of_char c :: nat) \<le> 90
      then char_of ((of_char c :: nat) + 32) else c)"

definition lower :: "string \<Rightarrow> string" where
  "lower s = map lower_char s"

text \<open>\<open>s.startswith(kw)\<close> and the substring test \<open>kw in s\<close>.\<close>

fun startswith :: "string \<Rightarrow> string \<Rightarrow> bool" where
  "startswith s [] = True"
| "startswith [] (k # ks) = False"
| "startswith (c # cs) (k # ks) = (c = k \<and> startswith cs ks)"

fun contains :: "string \<Rightarrow> string \<Rightarrow> bool" where
  "contains [] kw = (kw = [])"
| "contains (c # cs) kw = (startswith (c # cs) kw \<or> contains cs kw)"

definition critical_keywords :: "string list" where
  "critical_keywords =
     [''hypertension'', ''diabetes'', ''heart'', ''cancer'', ''stroke'', ''emergency'']"

definition moderate_keywords :: "string list" where
  "moderate_keywords = [''asthma'', ''allergies'', ''migraine'', ''arthritis'', ''chronic'']"

definition calculate_severity :: "string \<Rightarrow> Severity" where
  "calculate_severity diagnosis =
     (let diagnosis_lower = lower diagnosis in
      if list_ex (\<lambda>keyword. contains diagnosis_lower keyword) critical_keywords
        then CRITICAL
      else if list_ex (\<lambda>keyword. contains diagnosis_lower keyword) moderate_keywords
        then MODERATE
      else MILD)"

text \<open>
  The classification as the specification words it: a keyword of a set occurs
  somewhere inside the lower-cased text.
\<close>

definition occurs_in :: "string \<Rightarrow> string \<Rightarrow> bool" where
  "occurs_in kw s = (\<exists>pre post. s = pre @ kw @ post)"

definition classify_spec :: "string \<Rightarrow> Severity" where
  "classify_spec d =
     (if \<exists>kw \<in> {''hypertension'', ''diabetes'', ''heart'', ''cancer'', ''stroke'',
                   ''emergency''}. occurs_in kw (lower d) then CRITICAL
      else if \<exists>kw \<in> {''asthma'', ''allergies'', ''migraine'', ''arthritis'',
                        ''chronic''}. occurs_in kw (lower d) then MODERATE
      else MILD)"


section \<open>Health records (class HealthRecord)\<close>

record HealthRecord =
  record_id :: int
  user_id :: int
  doctor_id :: int
  diagnosis :: string
  record_date :: datetime
  severity :: Severity
  file_path :: "string option"

text \<open>The constructor: \<open>__post_init__\<close> sets the severity from the diagnosis.\<close>

definition HealthRecord_new ::
    "int \<Rightarrow> int \<Rightarrow> int \<Rightarrow> string \<Rightarrow> datetime \<Rightarrow> string option \<Rightarrow> HealthRecord" where
  "HealthRecord_new rid uid did diag date fp =
     \<lparr>record_id = rid, user_id = uid, doctor_id = did, diagnosis = diag, record_date = date,
      severity = calculate_severity diag, file_path = fp\<rparr>"

section \<open>Dictionaries and deques\<close>

text \<open>
  A Python \<open>dict\<close> keeps its keys in insertion order; it is modelled as an association
  list with distinct keys. Assigning to a present key keeps the key's position, assigning
  to a new key appends it, \<open>del\<close> removes the entry.
\<close>

type_synonym ('k, 'v) dict = "('k \<times> 'v) list"

definition dict_has :: "('k, 'v) dict \<Rightarrow> 'k \<Rightarrow> bool" where
  "dict_has d k = (k \<in> set (map fst d))"

fun dict_set :: "('k, 'v) dict \<Rightarrow> 'k \<Rightarrow> 'v \<Rightarrow> ('k, 'v) dict" where
  "dict_set [] k v = [(k, v)]"
| "dict_set ((k', v') # d) k v =
     (if k' = k then (k, v) # d else (k', v') # dict_set d k v)"

definition dict_del :: "('k, 'v) dict \<Rightarrow> 'k \<Rightarrow> ('k, 'v) dict" where
  "dict_del d k = filter (\<lambda>kv. fst kv \<noteq> k) d"

text \<open>
  The value that a \<open>defaultdict\<close> or a \<open>Counter\<close> holds for a key: the default when
  the key is missing. \<open>dd_getitem\<close> is the indexing \<open>d[k]\<close> of a \<open>defaultdict\<close>, which
  also stores the default under a missing key.
\<close>

definition dd_lookup :: "('k, 'v) dict \<Rightarrow> 'v \<Rightarrow> 'k \<Rightarrow> 'v" where
  "dd_lookup d dflt k = (case map_of d k of None \<Rightarrow> dflt | Some v \<Rightarrow> v)"

definition dd_getitem :: "('k, 'v) dict \<Rightarrow> 'v \<Rightarrow> 'k \<Rightarrow> 'v \<times> ('k, 'v) dict" where
  "dd_getitem d dflt k =
     (case map_of d k of None \<Rightarrow> (dflt, d @ [(k, dflt)]) | Some v \<Rightarrow> (v, d))"

text \<open>\<open>deque.remove(x)\<close> deletes the first occurrence and raises ValueError if there is none.\<close>

definition deque_remove :: "'a list \<Rightarrow> 'a \<Rightarrow> py_error + 'a list" where
  "deque_remove q x = (if x \<in> set q then Inr (remove1 x q) else Inl ValueError)"

section \<open>The bounded recency cache (class HealthDataCache)\<close>

text \<open>
  A cached value is \<open>'v option\<close>: \<open>None\<close> is Python's \<open>None\<close>, \<open>Some v\<close> any other
  object. \<open>get\<close> returns its result together with the updated cache, since it reorders
  \<open>access_order\<close>.
\<close>

record 'v HealthDataCache =
  cache :: "(string, 'v option) dict"
  access_order :: "string list"
  max_size :: int

definition cache_init :: "int \<Rightarrow> 'v HealthDataCache" where
  "cache_init n = \<lparr>cache = [], access_order = [], max_size = n\<rparr>"

definition get :: "'v HealthDataCache \<Rightarrow> string \<Rightarrow> py_error + ('v option \<times> 'v HealthDataCache)" where
  "get c key =
     (if dict_has (cache c) key then
        (case deque_remove (access_order c) key of
           Inl e \<Rightarrow> Inl e
         | Inr q \<Rightarrow>
             (case map_of (cache c) key of
                None \<Rightarrow> Inl KeyError
              | Some v \<Rightarrow> Inr (v, c\<lparr>access_order := q @ [key]\<rparr>)))
      else Inr (None, c))"

definition put :: "'v HealthDataCache \<Rightarrow> string \<Rightarrow> 'v option \<Rightarrow> py_error + 'v HealthDataCache" where
  "put c key v =
     (if dict_has (cache c) key then
        (case deque_remove (access_order c) key of
           Inl e \<Rightarrow> Inl e
         | Inr q \<Rightarrow> Inr (c\<lparr>cache := dict_set (cache c) key v, access_order := q @ [key]\<rparr>))
      else if int (length (cache c)) \<ge> max_size c then
        (case access_order c of
           [] \<Rightarrow> Inl IndexError
         | oldest # q \<Rightarrow>
             if dict_has (cache c) oldest
             then Inr (c\<lparr>cache := dict_set (dict_del (cache c) oldest) key v,
                         access_order := q @ [key]\<rparr>)
             else Inl KeyError)
      else Inr (c\<lparr>cache := dict_set (cache c) key v, access_order := access_order c @ [key]\<rparr>))"

text \<open>
  A history of calls on one cache. An exception ends the run, as it would propagate to
  the caller.
\<close>

datatype 'v cache_op = Get string | Put string "'v option"

fun op_key :: "'v cache_op \<Rightarrow> string" where
  "op_key (Get k) = k"
| "op_key (Put k v) = k"

definition cache_step :: "'v HealthDataCache \<Rightarrow> 'v cache_op \<Rightarrow> py_error + 'v HealthDataCache" where
  "cache_step c x =
     (case x of
        Get k \<Rightarrow> (case get c k of Inl e \<Rightarrow> Inl e | Inr (v, c') \<Rightarrow> Inr c')
      | Put k v \<Rightarrow> put c k v)"

fun cache_run :: "'v HealthDataCache \<Rightarrow> 'v cache_op list \<Rightarrow> py_error + 'v HealthDataCache" where
  "cache_run c [] = Inr c"
| "cache_run c (x # xs) = (case cache_step c x of Inl e \<Rightarrow> Inl e | Inr c' \<Rightarrow> cache_run c' xs)"

definition cache_keys :: "'v HealthDataCache \<Rightarrow> string set" where
  "cache_keys c = set (map fst (cache c))"

text \<open>
  The number of calls of a history up to and including the last one that names key
  \<open>k\<close> (0 if none does): the time of the last use of \<open>k\<close>.
\<close>

definition last_use :: "'v cache_op list \<Rightarrow> string \<Rightarrow> nat" where
  "last_use ops k = length (dropWhile (\<lambda>x. op_key x \<noteq> k) (rev ops))"

text \<open>
  Well-formedness of a cache: the dictionary and the recency deque hold the same
  keys, each once.
\<close>

definition cache_inv :: "'v HealthDataCache \<Rightarrow> bool" where
  "cache_inv c \<longleftrightarrow> distinct (map fst (cache c)) \<and> distinct (access_order c)
      \<and> set (access_order c) = set (map fst (cache c))"

definition cache_ok :: "int \<Rightarrow> 'v HealthDataCache \<Rightarrow> bool" where
  "cache_ok N c \<longleftrightarrow> cache_inv c \<and> max_size c = N \<and> int (length (cache c)) \<le> N"

text \<open>The effect of one call on the recency order alone.\<close>

definition order_step :: "int \<Rightarrow> string list \<Rightarrow> 'v cache_op \<Rightarrow> string list" where
  "order_step N ao x =
     (case x of
        Get k \<Rightarrow> if k \<in> set ao then remove1 k ao @ [k] else ao
      | Put k v \<Rightarrow> if k \<in> set ao then remove1 k ao @ [k]
                  else if int (length ao) \<ge> N then tl ao @ [k] else ao @ [k])"

section \<open>The binary heap of the \<open>heapq\<close> module\<close>

text \<open>
  \<open>heapq\<close> keeps a min-heap in a plain list: the parent of index \<open>i\<close> is
  \<open>(i - 1) >> 1\<close>. The functions below follow the module's \<open>_siftdown\<close>, \<open>_siftup\<close>,
  \<open>heappush\<close> and \<open>heappop\<close> step by step; the \<open>while\<close> loops are the recursive
  functions \<open>siftdown_loop\<close> and \<open>siftup_loop\<close>. Items are compared with \<open><\<close>; for
  the tuples stored here that is the lexicographic order.
\<close>

fun siftdown_loop :: "'a::linorder list \<Rightarrow> nat \<Rightarrow> nat \<Rightarrow> 'a \<Rightarrow> 'a list" where
  "siftdown_loop heap startpos pos newitem =
     (if pos > startpos then
        (let parentpos = (pos - 1) div 2; parent = heap ! parentpos in
         if newitem < parent then siftdown_loop (heap[pos := parent]) startpos parentpos newitem
         else heap[pos := newitem])
      else heap[pos := newitem])"

declare siftdown_loop.simps [simp del]

definition siftdown :: "'a::linorder list \<Rightarrow> nat \<Rightarrow> nat \<Rightarrow> 'a list" where
  "siftdown heap startpos pos = siftdown_loop heap startpos pos (heap ! pos)"

definition heappush :: "'a::linorder list \<Rightarrow> 'a \<Rightarrow> 'a list" where
  "heappush heap item = siftdown (heap @ [item]) 0 (length heap)"

function siftup_loop :: "'a::linorder list \<Rightarrow> nat \<Rightarrow> nat \<Rightarrow> 'a list \<times> nat" where
  "siftup_loop heap endpos pos =
     (let childpos = 2 * pos + 1 in
      if childpos < endpos then
        (let rightpos = childpos + 1;
             childpos' = (if rightpos < endpos \<and> \<not> heap ! childpos < heap ! rightpos
                          then rightpos else childpos)
         in siftup_loop (heap[pos := heap ! childpos']) endpos childpos')
      else (heap, pos))"
  by pat_completeness auto
termination
  by (relation "measure (\<lambda>(heap, endpos, pos). endpos - pos)") auto

declare siftup_loop.simps [simp del]

definition siftup :: "'a::linorder list \<Rightarrow> nat \<Rightarrow> 'a list" where
  "siftup heap pos =
     (let newitem = heap ! pos in
      case siftup_loop heap (length heap) pos of
        (heap', pos') \<Rightarrow> siftdown (heap'[pos' := newitem]) pos pos')"

text \<open>\<open>heappop\<close> raises IndexError on an empty list (from \<open>heap.pop()\<close>).\<close>

definition heappop :: "'a::linorder list \<Rightarrow> py_error + ('a \<times> 'a list)" where
  "heappop heap =
     (if heap = [] then Inl IndexError
      else (let lastelt = last heap; heap1 = butlast heap in
            if heap1 \<noteq> [] then Inr (heap1 ! 0, siftup (heap1[0 := lastelt]) 0)
            else Inr (lastelt, heap1)))"

text \<open>The heap property of a list.\<close>

definition is_heap :: "'a::linorder list \<Rightarrow> bool" where
  "is_heap h \<longleftrightarrow> (\<forall>i. 0 < i \<and> i < length h \<longrightarrow> h ! ((i - 1) div 2) \<le> h ! i)"

section \<open>Doctor workload analytics (class DoctorAnalytics)\<close>

text \<open>
  The fields of \<open>Doctor\<close> that the engine reads. \<open>avg_severity_score\<close> and the
  efficiency score are floating-point values that no operation below looks at; they
  are left out.
\<close>

record Doctor =
  doctor_id :: int
  name :: string
  specialization :: string
  patient_count :: int

record DoctorAnalytics =
  specialization_map :: "(string, Doctor list) dict"
  workload_heap :: "(int \<times> int) list"

definition DoctorAnalytics_init :: DoctorAnalytics where
  "DoctorAnalytics_init = \<lparr>specialization_map = [], workload_heap = []\<rparr>"

definition add_doctor :: "DoctorAnalytics \<Rightarrow> Doctor \<Rightarrow> DoctorAnalytics" where
  "add_doctor da doctor =
     da\<lparr>specialization_map :=
          dict_set (specialization_map da) (specialization doctor)
            (dd_lookup (specialization_map da) [] (specialization doctor) @ [doctor]),
        workload_heap := heappush (workload_heap da) (patient_count doctor, Doctor.doctor_id doctor)\<rparr>"

text \<open>
  \<open>[heapq.heappop(heap)[1] for _ in range(n)]\<close>: \<open>n\<close> pops in a row, keeping the second
  component of each popped pair.
\<close>

fun pop_ids :: "nat \<Rightarrow> (int \<times> int) list \<Rightarrow> py_error + (int list \<times> (int \<times> int) list)" where
  "pop_ids 0 heap = Inr ([], heap)"
| "pop_ids (Suc n) heap =
     (case heappop heap of
        Inl e \<Rightarrow> Inl e
      | Inr (item, heap') \<Rightarrow>
          (case pop_ids n heap' of
             Inl e \<Rightarrow> Inl e
           | Inr (ids, heap'') \<Rightarrow> Inr (snd item # ids, heap'')))"

definition get_least_busy_doctors ::
    "DoctorAnalytics \<Rightarrow> int \<Rightarrow> py_error + (int list \<times> DoctorAnalytics)" where
  "get_least_busy_doctors da count' =
     (case pop_ids (nat (min count' (int (length (workload_heap da))))) (workload_heap da) of
        Inl e \<Rightarrow> Inl e
      | Inr (ids, heap') \<Rightarrow> Inr (ids, da\<lparr>workload_heap := heap'\<rparr>))"

section \<open>The treatment urgency queue (class TreatmentPriorityQueue)\<close>

text \<open>
  An entry is the tuple (priority, follow_up_date, treatment_id). \<open>datetime.now()\<close> is
  read twice by \<open>add_treatment\<close>, once for the priority and once for the overdue test;
  both readings are arguments of the model.
\<close>

type_synonym entry = "int \<times> datetime \<times> int"

record TreatmentPriorityQueue =
  urgent_treatments :: "entry list"
  overdue_treatments :: "int set"

definition TreatmentPriorityQueue_init :: TreatmentPriorityQueue where
  "TreatmentPriorityQueue_init = \<lparr>urgent_treatments = [], overdue_treatments = {}\<rparr>"

definition severity_modifier :: "Severity \<Rightarrow> int" where
  "severity_modifier s = (case s of CRITICAL \<Rightarrow> 0 | MODERATE \<Rightarrow> 10 | MILD \<Rightarrow> 20)"

definition calculate_priority :: "datetime \<Rightarrow> Severity \<Rightarrow> datetime \<Rightarrow> int" where
  "calculate_priority follow_up_date sev now =
     (let days_until_due = days_between follow_up_date now
      in days_until_due + severity_modifier sev)"

definition add_treatment ::
    "TreatmentPriorityQueue \<Rightarrow> int \<Rightarrow> datetime \<Rightarrow> Severity \<Rightarrow> datetime \<Rightarrow> datetime
       \<Rightarrow> TreatmentPriorityQueue" where
  "add_treatment q treatment_id follow_up_date sev now1 now2 =
     (let priority = calculate_priority follow_up_date sev now1;
          q1 = q\<lparr>urgent_treatments :=
                   heappush (urgent_treatments q) (priority, follow_up_date, treatment_id)\<rparr>
      in if follow_up_date < now2
         then q1\<lparr>overdue_treatments := insert treatment_id (overdue_treatments q1)\<rparr>
         else q1)"

text \<open>
  The first loop of \<open>get_next_urgent_treatments\<close>: \<open>n\<close> rounds, each popping one entry
  if the heap is not empty. It returns the heap, \<open>urgent\<close> and \<open>temp_heap\<close>.
\<close>

fun pop_urgent :: "nat \<Rightarrow> entry list \<Rightarrow> int list \<Rightarrow> entry list
      \<Rightarrow> py_error + (entry list \<times> int list \<times> entry list)" where
  "pop_urgent 0 heap urgent temp_heap = Inr (heap, urgent, temp_heap)"
| "pop_urgent (Suc n) heap urgent temp_heap =
     (if heap \<noteq> [] then
        (case heappop heap of
           Inl e \<Rightarrow> Inl e
         | Inr ((priority, date, treatment_id), heap') \<Rightarrow>
             pop_urgent n heap' (urgent @ [treatment_id])
               (temp_heap @ [(priority, date, treatment_id)]))
      else pop_urgent n heap urgent temp_heap)"

definition get_next_urgent_treatments ::
    "TreatmentPriorityQueue \<Rightarrow> int \<Rightarrow> py_error + (int list \<times> TreatmentPriorityQueue)" where
  "get_next_urgent_treatments q count' =
     (case pop_urgent (nat (min count' (int (length (urgent_treatments q)))))
             (urgent_treatments q) [] [] of
        Inl e \<Rightarrow> Inl e
      | Inr (heap, urgent, temp_heap) \<Rightarrow>
          Inr (urgent, q\<lparr>urgent_treatments := foldl heappush heap temp_heap\<rparr>))"

definition get_overdue_treatments :: "TreatmentPriorityQueue \<Rightarrow> int set" where
  "get_overdue_treatments q = overdue_treatments q"

text \<open>
  A history of calls on one queue: additions with their two clock readings, and the
  two read queries (the overdue query at any time; it takes no clock reading).
\<close>

datatype tq_event =
    AddTreatment int datetime Severity datetime datetime
  | NextUrgent int
  | Overdue

definition tq_step :: "TreatmentPriorityQueue \<Rightarrow> tq_event \<Rightarrow> py_error + TreatmentPriorityQueue" where
  "tq_step q ev =
     (case ev of
        AddTreatment tid fu sev now1 now2 \<Rightarrow> Inr (add_treatment q tid fu sev now1 now2)
      | NextUrgent k \<Rightarrow>
          (case get_next_urgent_treatments q k of Inl e \<Rightarrow> Inl e | Inr (ids, q') \<Rightarrow> Inr q')
      | Overdue \<Rightarrow> Inr q)"

fun tq_run :: "TreatmentPriorityQueue \<Rightarrow> tq_event list \<Rightarrow> py_error + TreatmentPriorityQueue" where
  "tq_run q [] = Inr q"
| "tq_run q (ev # evs) = (case tq_step q ev of Inl e \<Rightarrow> Inl e | Inr q' \<Rightarrow> tq_run q' evs)"

text \<open>The entries and the overdue ids that a history asks to add.\<close>

fun added_entries :: "tq_event list \<Rightarrow> entry list" where
  "added_entries [] = []"
| "added_entries (AddTreatment tid fu sev now1 now2 # evs) =
     (calculate_priority fu sev now1, fu, tid) # added_entries evs"
| "added_entries (ev # evs) = added_entries evs"

fun added_overdue :: "tq_event list \<Rightarrow> int set" where
  "added_overdue [] = {}"
| "added_overdue (AddTreatment tid fu sev now1 now2 # evs) =
     (if fu < now2 then insert tid (added_overdue evs) else added_overdue evs)"
| "added_overdue (ev # evs) = added_overdue evs"

text \<open>
  A list that is a heap everywhere except at position \<open>p\<close>, whose value is about
  to be overwritten: the relations not involving \<open>p\<close> hold, and the children of
  \<open>p\<close> are above the parent of \<open>p\<close>.
\<close>

definition heap_except :: "'a::linorder list \<Rightarrow> nat \<Rightarrow> bool" where
  "heap_except h p \<longleftrightarrow> p < length h
     \<and> (\<forall>i. 0 < i \<and> i < length h \<and> i \<noteq> p \<and> (i - 1) div 2 \<noteq> p \<longrightarrow> h ! ((i - 1) div 2) \<le> h ! i)
     \<and> (\<forall>c. 0 < c \<and> c < length h \<and> (c - 1) div 2 = p \<and> 0 < p \<longrightarrow> h ! ((p - 1) div 2) \<le> h ! c)"

section \<open>The per-user timeline index (class PatientTimeline)\<close>

record PatientTimeline =
  records_by_year :: "(int, HealthRecord list) dict"
  severity_index :: "(Severity, HealthRecord list) dict"
  doctor_visits :: "(int, nat) dict"
  condition_frequency :: "(string, nat) dict"

definition PatientTimeline_init :: PatientTimeline where
  "PatientTimeline_init =
     \<lparr>records_by_year = [], severity_index = [], doctor_visits = [], condition_frequency = []\<rparr>"

text \<open>
  \<open>xs.sort(key=f, reverse=True)\<close>: the list is reversed, sorted stably in ascending
  order of the key, and reversed again; elements with equal keys keep their order.
\<close>

definition py_sort_reverse :: "('a \<Rightarrow> 'k::linorder) \<Rightarrow> 'a list \<Rightarrow> 'a list" where
  "py_sort_reverse f xs = rev (sort_key f (rev xs))"

text \<open>\<open>c[k] += 1\<close> on a \<open>Counter\<close>.\<close>

definition counter_incr :: "('k, nat) dict \<Rightarrow> 'k \<Rightarrow> ('k, nat) dict" where
  "counter_incr c k = dict_set c k (dd_lookup c 0 k + 1)"

text \<open>
  \<open>Counter.most_common(n)\<close> is \<open>heapq.nlargest(n, items, key=count)\<close>, that is
  \<open>sorted(items, key=count, reverse=True)[:n]\<close>.
\<close>

definition most_common :: "('k, nat) dict \<Rightarrow> int \<Rightarrow> ('k \<times> nat) list" where
  "most_common c n = take (nat n) (py_sort_reverse snd c)"

definition add_record :: "PatientTimeline \<Rightarrow> HealthRecord \<Rightarrow> PatientTimeline" where
  "add_record timeline rcd =
     (let yr = year (record_date rcd);
          rby1 = dict_set (records_by_year timeline) yr
                   (dd_lookup (records_by_year timeline) [] yr @ [rcd]);
          sidx = dict_set (severity_index timeline) (severity rcd)
                   (dd_lookup (severity_index timeline) [] (severity rcd) @ [rcd]);
          dv = counter_incr (doctor_visits timeline) (HealthRecord.doctor_id rcd);
          cf = counter_incr (condition_frequency timeline) (diagnosis rcd);
          rby2 = dict_set rby1 yr (py_sort_reverse record_date (dd_lookup rby1 [] yr))
      in \<lparr>records_by_year = rby2, severity_index = sidx, doctor_visits = dv,
          condition_frequency = cf\<rparr>)"

definition get_records_by_year ::
    "PatientTimeline \<Rightarrow> int \<Rightarrow> HealthRecord list \<times> PatientTimeline" where
  "get_records_by_year timeline yr =
     (case dd_getitem (records_by_year timeline) [] yr of
        (rs, d) \<Rightarrow> (rs, timeline\<lparr>records_by_year := d\<rparr>))"

definition get_critical_records :: "PatientTimeline \<Rightarrow> HealthRecord list \<times> PatientTimeline" where
  "get_critical_records timeline =
     (case dd_getitem (severity_index timeline) [] CRITICAL of
        (rs, d) \<Rightarrow> (rs, timeline\<lparr>severity_index := d\<rparr>))"

definition get_most_visited_doctors :: "PatientTimeline \<Rightarrow> int \<Rightarrow> (int \<times> nat) list" where
  "get_most_visited_doctors timeline limit = most_common (doctor_visits timeline) limit"

definition get_common_conditions :: "PatientTimeline \<Rightarrow> int \<Rightarrow> (string \<times> nat) list" where
  "get_common_conditions timeline limit = most_common (condition_frequency timeline) limit"

section \<open>The aggregation engine (class HealthMetricsAggregator)\<close>

text \<open>\<open>str(i)\<close> for an integer, as an f-string formats it.\<close>

fun str_nat :: "nat \<Rightarrow> string" where
  "str_nat n =
     (if n < 10 then [char_of (48 + n)] else str_nat (n div 10) @ [char_of (48 + n mod 10)])"

declare str_nat.simps [simp del]

definition str_int :: "int \<Rightarrow> string" where
  "str_int i = (if i < 0 then CHR ''-'' # str_nat (nat (- i)) else str_nat (nat i))"

text \<open>
  The summary dictionary of one user, and the result of the summary query, which is a
  summary or the dictionary \<open>{"error": "No health records found"}\<close>.
\<close>

record summary =
  total_records :: nat
  critical_conditions :: nat
  most_visited_doctors :: "(int \<times> nat) list"
  common_conditions :: "(string \<times> nat) list"
  recent_activity :: nat

datatype summary_result = Summary summary | ErrorDict string

text \<open>
  The result of the system analytics query. \<open>total_records / total_users\<close> is Python's
  true division; the model keeps the exact quotient and leaves out the rounding to a
  floating-point number.
\<close>

record analytics =
  total_users :: nat
  total_records :: nat
  severity_distribution :: "(string, nat) dict"
  avg_records_per_user :: rat

text \<open>
  The field \<open>agg_cache\<close> is the attribute \<open>cache\<close> of the class; the name \<open>cache\<close>
  is taken by the dictionary inside \<open>HealthDataCache\<close>. The cache is created with the
  default capacity 100.
\<close>

record HealthMetricsAggregator =
  user_timelines :: "(int, PatientTimeline) dict"
  doctor_analytics :: DoctorAnalytics
  treatment_queue :: TreatmentPriorityQueue
  agg_cache :: "summary HealthDataCache"

definition HealthMetricsAggregator_init :: HealthMetricsAggregator where
  "HealthMetricsAggregator_init =
     \<lparr>user_timelines = [], doctor_analytics = DoctorAnalytics_init,
      treatment_queue = TreatmentPriorityQueue_init, agg_cache = cache_init 100\<rparr>"

text \<open>
  The argument \<open>record_data\<close> of \<open>add_health_record\<close>, with \<open>record_date\<close> already
  parsed. The field names carry the prefix \<open>rd_\<close> to keep them apart from those of
  \<open>HealthRecord\<close>.
\<close>

record record_data =
  rd_record_id :: int
  rd_user_id :: int
  rd_doctor_id :: int
  rd_diagnosis :: string
  rd_record_date :: datetime
  rd_file_path :: "string option"

definition add_health_record ::
    "HealthMetricsAggregator \<Rightarrow> record_data \<Rightarrow> py_error + HealthMetricsAggregator" where
  "add_health_record agg rd =
     (let rcd = HealthRecord_new (rd_record_id rd) (rd_user_id rd) (rd_doctor_id rd)
                  (rd_diagnosis rd) (rd_record_date rd) (rd_file_path rd);
          uts = (if \<not> dict_has (user_timelines agg) (user_id rcd)
                 then dict_set (user_timelines agg) (user_id rcd) PatientTimeline_init
                 else user_timelines agg)
      in case map_of uts (user_id rcd) of
           None \<Rightarrow> Inl KeyError
         | Some timeline \<Rightarrow>
             (case put (agg_cache agg) (''user_timeline_'' @ str_int (user_id rcd)) None of
                Inl e \<Rightarrow> Inl e
              | Inr c \<Rightarrow>
                  Inr (agg\<lparr>user_timelines := dict_set uts (user_id rcd) (add_record timeline rcd),
                           agg_cache := c\<rparr>)))"

text \<open>
  The number of records of a timeline, \<open>sum(len(records) for records in
  timeline.records_by_year.values())\<close>.
\<close>

definition timeline_total :: "PatientTimeline \<Rightarrow> nat" where
  "timeline_total timeline = sum_list (map (\<lambda>kv. length (snd kv)) (records_by_year timeline))"

text \<open>
  The dictionary literal \<open>summary = {...}\<close> of \<open>get_user_health_summary\<close>, evaluated
  on the user's timeline with the clock reading \<open>now\<close>. Reading the critical records
  goes through the \<open>defaultdict\<close> and may store an empty CRITICAL bucket, so the
  timeline is returned too.
\<close>

definition summary_dict :: "PatientTimeline \<Rightarrow> datetime \<Rightarrow> summary \<times> PatientTimeline" where
  "summary_dict timeline now =
     (case get_critical_records timeline of
        (crit, timeline1) \<Rightarrow>
          (\<lparr>summary.total_records = timeline_total timeline,
            critical_conditions = length crit,
            most_visited_doctors = get_most_visited_doctors timeline1 3,
            common_conditions = get_common_conditions timeline1 5,
            recent_activity =
              length (filter (\<lambda>r. days_between now (record_date r) \<le> 30)
                        (concat (map snd (records_by_year timeline1))))\<rparr>,
           timeline1))"

text \<open>
  \<open>get_user_health_summary\<close>. A cached summary is a non-empty dictionary and so is
  true in \<open>if cached\<close>; \<open>None\<close> is false.
\<close>

definition get_user_health_summary ::
    "HealthMetricsAggregator \<Rightarrow> int \<Rightarrow> datetime
       \<Rightarrow> py_error + (summary_result \<times> HealthMetricsAggregator)" where
  "get_user_health_summary agg uid now =
     (let cache_key = ''user_summary_'' @ str_int uid in
      case get (agg_cache agg) cache_key of
        Inl e \<Rightarrow> Inl e
      | Inr (cached, c1) \<Rightarrow>
          (case cached of
             Some s \<Rightarrow> Inr (Summary s, agg\<lparr>agg_cache := c1\<rparr>)
           | None \<Rightarrow>
               if \<not> dict_has (user_timelines agg) uid
               then Inr (ErrorDict ''No health records found'', agg\<lparr>agg_cache := c1\<rparr>)
               else
                 (case map_of (user_timelines agg) uid of
                    None \<Rightarrow> Inl KeyError
                  | Some timeline \<Rightarrow>
                      (case summary_dict timeline now of
                         (s, timeline1) \<Rightarrow>
                           (case put c1 cache_key (Some s) of
                              Inl e \<Rightarrow> Inl e
                            | Inr c2 \<Rightarrow>
                                Inr (Summary s,
                                     agg\<lparr>user_timelines :=
                                            dict_set (user_timelines agg) uid timeline1,
                                         agg_cache := c2\<rparr>))))))"

text \<open>
  The severity distribution of \<open>get_system_analytics\<close>: a \<open>defaultdict(int)\<close> filled by
  the two nested loops over the timelines and over the items of each severity index.
\<close>

definition severity_dist_add ::
    "(string, nat) dict \<Rightarrow> Severity \<times> HealthRecord list \<Rightarrow> (string, nat) dict" where
  "severity_dist_add sd item =
     dict_set sd (severity_value (fst item))
       (dd_lookup sd 0 (severity_value (fst item)) + length (snd item))"

definition severity_dist_of :: "(int, PatientTimeline) dict \<Rightarrow> (string, nat) dict" where
  "severity_dist_of uts =
     foldl (\<lambda>sd ut. foldl severity_dist_add sd (severity_index (snd ut))) [] uts"

definition get_system_analytics :: "HealthMetricsAggregator \<Rightarrow> analytics" where
  "get_system_analytics agg =
     (let users = length (user_timelines agg);
          records = sum_list (map (\<lambda>ut. timeline_total (snd ut)) (user_timelines agg));
          severity_dist = severity_dist_of (user_timelines agg)
      in \<lparr>total_users = users, total_records = records,
          severity_distribution = severity_dist,
          avg_records_per_user =
            (if users > 0 then of_nat records / of_nat users else 0)\<rparr>)"

text \<open>A history of calls on the engine; an exception ends the run.\<close>

datatype agg_event = AddHealthRecord record_data | GetUserHealthSummary int datetime

definition agg_step ::
    "HealthMetricsAggregator \<Rightarrow> agg_event \<Rightarrow> py_error + HealthMetricsAggregator" where
  "agg_step agg ev =
     (case ev of
        AddHealthRecord rd \<Rightarrow> add_health_record agg rd
      | GetUserHealthSummary uid now \<Rightarrow>
          (case get_user_health_summary agg uid now of
             Inl e \<Rightarrow> Inl e
           | Inr (res, agg') \<Rightarrow> Inr agg'))"

fun agg_run ::
    "HealthMetricsAggregator \<Rightarrow> agg_event list \<Rightarrow> py_error + HealthMetricsAggregator" where
  "agg_run agg [] = Inr agg"
| "agg_run agg (ev # evs) =
     (case agg_step agg ev of Inl e \<Rightarrow> Inl e | Inr agg' \<Rightarrow> agg_run agg' evs)"

text \<open>The records that a history adds, in order.\<close>

fun added_records :: "agg_event list \<Rightarrow> record_data list" where
  "added_records [] = []"
| "added_records (AddHealthRecord rd # evs) = rd # added_records evs"
| "added_records (GetUserHealthSummary uid now # evs) = added_records evs"

text \<open>
  The number of records of severity \<open>s\<close> held by the severity indices of all
  timelines, and the relation between an engine state and the records added so far.
\<close>

definition sev_count :: "(int, PatientTimeline) dict \<Rightarrow> Severity \<Rightarrow> nat" where
  "sev_count uts s =
     sum_list (map (\<lambda>ut. length (dd_lookup (severity_index (snd ut)) [] s)) uts)"

definition agg_inv :: "HealthMetricsAggregator \<Rightarrow> record_data list \<Rightarrow> bool" where
  "agg_inv agg rds \<longleftrightarrow>
     cache_ok 100 (agg_cache agg)
     \<and> distinct (map fst (user_timelines agg))
     \<and> set (map fst (user_timelines agg)) = rd_user_id ` set rds
     \<and> sum_list (map (\<lambda>ut. timeline_total (snd ut)) (user_timelines agg)) = length rds
     \<and> (\<forall>s. sev_count (user_timelines agg) s
              = length (filter (\<lambda>rd. calculate_severity (rd_diagnosis rd) = s) rds))
     \<and> (\<forall>ut \<in> set (user_timelines agg). distinct (map fst (severity_index (snd ut))))"

section \<open>Properties of the severity classifier\<close>

lemma startswith_iff: "startswith s kw \<longleftrightarrow> (\<exists>post. s = kw @ post)"
  by (induction s kw rule: startswith.induct) auto

lemma contains_iff: "contains s kw \<longleftrightarrow> occurs_in kw s"
proof (induction s)
  case Nil
  then show ?case by (auto simp: occurs_in_def)
next
  case (Cons c cs)
  show ?case
  proof
    assume "contains (c # cs) kw"
    then consider "startswith (c # cs) kw" | "contains cs kw" by auto
    then show "occurs_in kw (c # cs)"
    proof cases
      case 1
      then obtain post where "c # cs = kw @ post" using startswith_iff by blast
      then have "c # cs = [] @ kw @ post" by simp
      then show ?thesis unfolding occurs_in_def by blast
    next
      case 2
      then obtain pre post where "cs = pre @ kw @ post" using Cons.IH occurs_in_def by auto
      then have "c # cs = (c # pre) @ kw @ post" by simp
      then show ?thesis unfolding occurs_in_def by blast
    qed
  next
    assume "occurs_in kw (c # cs)"
    then obtain pre post where e: "c # cs = pre @ kw @ post" unfolding occurs_in_def by blast
    show "contains (c # cs) kw"
    proof (cases pre)
      case Nil
      then have "startswith (c # cs) kw" using e startswith_iff by auto
      then show ?thesis by simp
    next
      case (Cons p ps)
      then have "cs = ps @ kw @ post" using e by simp
      then have "occurs_in kw cs" unfolding occurs_in_def by blast
      then show ?thesis using Cons.IH by simp
    qed
  qed
qed

lemma lower_char_idem: "lower_char (lower_char c) = lower_char c"
proof (cases "65 \<le> (of_char c :: nat) \<and> (of_char c :: nat) \<le> 90")
  case True
  then have "(of_char (char_of ((of_char c :: nat) + 32)) :: nat) = of_char c + 32"
    by (simp add: of_char_of)
  with True show ?thesis by (simp add: lower_char_def)
next
  case False
  then show ?thesis by (auto simp: lower_char_def)
qed

lemma lower_idem: "lower (lower s) = lower s"
  by (simp add: lower_def lower_char_idem)

text \<open>
  Claim C6. The classifier is a total function of the diagnosis text alone. Its result
  is CRITICAL exactly when the lower-cased text contains one of hypertension, diabetes,
  heart, cancer, stroke, emergency; otherwise MODERATE exactly when it contains one of
  asthma, allergies, migraine, arthritis, chronic; otherwise MILD (so a CRITICAL match
  dominates a MODERATE one). Two texts with the same lower-casing classify alike, and
  lower-casing a text does not change its class. "Type 2 Diabetes" is CRITICAL,
  "Seasonal Allergies" is MODERATE and "Sprained ankle" is MILD.
\<close>

theorem calculate_severity_classifies:
  "calculate_severity d = classify_spec d
   \<and> (\<forall>d'. lower d' = lower d \<longrightarrow> calculate_severity d' = calculate_severity d)
   \<and> calculate_severity (lower d) = calculate_severity d
   \<and> calculate_severity ''Type 2 Diabetes'' = CRITICAL
   \<and> calculate_severity ''Seasonal Allergies'' = MODERATE
   \<and> calculate_severity ''Sprained ankle'' = MILD"
proof -
  have c: "set critical_keywords =
      {''hypertension'', ''diabetes'', ''heart'', ''cancer'', ''stroke'', ''emergency''}"
    by (simp add: critical_keywords_def)
  have m: "set moderate_keywords =
      {''asthma'', ''allergies'', ''migraine'', ''arthritis'', ''chronic''}"
    by (simp add: moderate_keywords_def)
  have spec: "calculate_severity d = classify_spec d"
    unfolding calculate_severity_def classify_spec_def Let_def list_ex_iff contains_iff c m ..
  have ci: "\<forall>d'. lower d' = lower d \<longrightarrow> calculate_severity d' = calculate_severity d"
    by (simp add: calculate_severity_def)
  have low: "calculate_severity (lower d) = calculate_severity d"
    by (simp add: calculate_severity_def lower_idem)
  have e1: "calculate_severity ''Type 2 Diabetes'' = CRITICAL" by code_simp
  have e2: "calculate_severity ''Seasonal Allergies'' = MODERATE" by code_simp
  have e3: "calculate_severity ''Sprained ankle'' = MILD" by code_simp
  show ?thesis using spec ci low e1 e2 e3 by blast
qed

theorem calculate_severity_classifies_witness:
  "classify_spec ''CHRONIC Heart failure'' = CRITICAL
   \<and> calculate_severity ''chronic heart FAILURE'' = CRITICAL"
proof -
  have a: "calculate_severity ''CHRONIC Heart failure'' = CRITICAL" by code_simp
  have b: "lower ''chronic heart FAILURE'' = lower ''CHRONIC Heart failure''" by code_simp
  show ?thesis
    using calculate_severity_classifies [of "''CHRONIC Heart failure''"] a b by metis
qed

section \<open>Properties of the recency cache\<close>

lemma dict_set_map_fst:
  "map fst (dict_set d k v) = (if k \<in> set (map fst d) then map fst d else map fst d @ [k])"
  by (induction d) (auto simp: rev_image_eqI)

lemma dict_set_keys: "set (map fst (dict_set d k v)) = insert k (set (map fst d))"
  by (auto simp: dict_set_map_fst)

lemma dict_set_distinct: "distinct (map fst d) \<Longrightarrow> distinct (map fst (dict_set d k v))"
  by (auto simp: dict_set_map_fst)

lemma dict_set_length: "length (dict_set d k v) = (if dict_has d k then length d else Suc (length d))"
  using arg_cong[OF dict_set_map_fst[of d k v], of length] by (auto simp: dict_has_def)

lemma dict_del_keys: "set (map fst (dict_del d k)) = set (map fst d) - {k}"
  by (auto simp: dict_del_def)

lemma dict_del_distinct: "distinct (map fst d) \<Longrightarrow> distinct (map fst (dict_del d k))"
  by (simp add: dict_del_def distinct_map_filter)

lemma filter_fst_neq: "k \<notin> fst ` set d \<Longrightarrow> filter (\<lambda>kv. fst kv \<noteq> k) d = d"
  by (induction d) auto

lemma dict_del_length: "distinct (map fst d) \<Longrightarrow> dict_has d k \<Longrightarrow> Suc (length (dict_del d k)) = length d"
  by (induction d) (auto simp: dict_del_def dict_has_def filter_fst_neq)

lemma map_of_dict_set: "map_of (dict_set d k v) = (map_of d)(k \<mapsto> v)"
  by (induction d) (auto simp: fun_eq_iff)

lemma inv_length: "cache_inv c \<Longrightarrow> length (access_order c) = length (cache c)"
  unfolding cache_inv_def by (metis distinct_card length_map)

lemma cache_ok_init: "0 \<le> N \<Longrightarrow> cache_ok N (cache_init N)"
  by (simp add: cache_ok_def cache_inv_def cache_init_def)

lemma get_ok:
  assumes "cache_ok N c"
  shows "\<exists>v c'. get c k = Inr (v, c') \<and> cache_ok N c'
           \<and> access_order c' = order_step N (access_order c) (Get k)
           \<and> cache c' = cache c
           \<and> v = (case map_of (cache c) k of None \<Rightarrow> None | Some w \<Rightarrow> w)"
proof (cases "dict_has (cache c) k")
  case True
  then have kin: "k \<in> set (access_order c)"
    using assms by (simp add: cache_ok_def cache_inv_def dict_has_def)
  from True obtain w where w: "map_of (cache c) k = Some w"
    by (metis dict_has_def domD dom_map_of_conv_image_fst list.set_map)
  show ?thesis
    using assms True kin w
    by (auto simp: get_def deque_remove_def order_step_def cache_ok_def cache_inv_def)
next
  case False
  then have "k \<notin> set (access_order c)"
    using assms by (simp add: cache_ok_def cache_inv_def dict_has_def)
  moreover from False have "map_of (cache c) k = None"
    by (simp add: dict_has_def map_of_eq_None_iff)
  ultimately show ?thesis using assms False
    by (simp add: get_def order_step_def)
qed

lemma put_ok:
  assumes "cache_ok N c" and "1 \<le> N"
  shows "\<exists>c'. put c k v = Inr c' \<and> cache_ok N c'
           \<and> access_order c' = order_step N (access_order c) (Put k v)
           \<and> map_of (cache c') k = Some v"
proof -
  from assms have inv: "distinct (map fst (cache c))" "distinct (access_order c)"
    "set (access_order c) = set (map fst (cache c))" "max_size c = N"
    "int (length (cache c)) \<le> N"
    by (simp_all add: cache_ok_def cache_inv_def)
  have len: "length (access_order c) = length (cache c)"
    using inv by (metis distinct_card length_map)
  show ?thesis
  proof (cases "dict_has (cache c) k")
    case True
    then have kin: "k \<in> set (access_order c)" using inv by (simp add: dict_has_def)
    have "put c k v = Inr (c\<lparr>cache := dict_set (cache c) k v,
                             access_order := remove1 k (access_order c) @ [k]\<rparr>)"
      using True kin by (simp add: put_def deque_remove_def)
    moreover have "cache_ok N (c\<lparr>cache := dict_set (cache c) k v,
                             access_order := remove1 k (access_order c) @ [k]\<rparr>)"
      using inv True kin
      by (auto simp: cache_ok_def cache_inv_def dict_set_distinct dict_set_keys dict_set_length
            simp del: set_map)
    ultimately show ?thesis using kin by (simp add: order_step_def map_of_dict_set)
  next
    case False
    then have knin: "k \<notin> set (access_order c)" using inv by (simp add: dict_has_def)
    show ?thesis
    proof (cases "int (length (cache c)) \<ge> max_size c")
      case full: True
      then have "length (access_order c) \<noteq> 0" using assms(2) inv len by auto
      then obtain oldest q where ao: "access_order c = oldest # q" by (cases "access_order c") auto
      then have old: "dict_has (cache c) oldest" using inv by (auto simp: dict_has_def)
      let ?c' = "c\<lparr>cache := dict_set (dict_del (cache c) oldest) k v, access_order := q @ [k]\<rparr>"
      have p: "put c k v = Inr ?c'" using False full ao old by (simp add: put_def)
      have l: "Suc (length (dict_del (cache c) oldest)) = length (cache c)"
        by (rule dict_del_length[OF inv(1) old])
      have nk: "\<not> dict_has (dict_del (cache c) oldest) k"
        using False by (simp add: dict_has_def dict_del_keys del: set_map)
      have "cache_ok N ?c'"
        using inv ao knin l nk
        by (auto simp: cache_ok_def cache_inv_def dict_set_distinct dict_del_distinct dict_set_keys
            dict_del_keys dict_set_length simp del: set_map)
      moreover have "order_step N (access_order c) (Put k v) = q @ [k]"
        using knin full ao inv(4) len by (simp add: order_step_def)
      ultimately show ?thesis using p by (simp add: map_of_dict_set)
    next
      case nfull: False
      let ?c' = "c\<lparr>cache := dict_set (cache c) k v, access_order := access_order c @ [k]\<rparr>"
      have p: "put c k v = Inr ?c'" using False nfull by (simp add: put_def)
      have "cache_ok N ?c'"
        using inv knin nfull False
        by (auto simp: cache_ok_def cache_inv_def dict_set_distinct dict_set_keys dict_set_length
            simp del: set_map)
      moreover have "order_step N (access_order c) (Put k v) = access_order c @ [k]"
        using knin nfull inv(4) len by (simp add: order_step_def)
      ultimately show ?thesis using p by (simp add: map_of_dict_set)
    qed
  qed
qed

lemma step_ok:
  assumes "cache_ok N c" and "1 \<le> N"
  shows "\<exists>c'. cache_step c x = Inr c' \<and> cache_ok N c'
           \<and> access_order c' = order_step N (access_order c) x"
proof (cases x)
  case (Get k)
  then show ?thesis using get_ok[OF assms(1), of k] by (auto simp: cache_step_def)
next
  case (Put k v)
  then show ?thesis using put_ok[OF assms, of k v] by (auto simp: cache_step_def)
qed

lemma cache_run_append:
  "cache_run c (xs @ ys) = (case cache_run c xs of Inl e \<Rightarrow> Inl e | Inr c' \<Rightarrow> cache_run c' ys)"
  by (induction xs arbitrary: c) (auto split: sum.splits)

lemma run_ok:
  assumes "cache_ok N c" and "1 \<le> N"
  shows "\<exists>c'. cache_run c xs = Inr c' \<and> cache_ok N c'
           \<and> access_order c' = foldl (order_step N) (access_order c) xs"
  using assms(1)
proof (induction xs arbitrary: c)
  case Nil
  then show ?case by simp
next
  case (Cons x xs)
  from step_ok[OF Cons.prems assms(2), of x] obtain c1 where
    c1: "cache_step c x = Inr c1" "cache_ok N c1"
        "access_order c1 = order_step N (access_order c) x" by blast
  from Cons.IH[OF c1(2)] c1 show ?case by auto
qed

lemma last_use_snoc:
  "last_use (ops @ [x]) k = (if op_key x = k then Suc (length ops) else last_use ops k)"
  by (simp add: last_use_def)

lemma last_use_le: "last_use ops k \<le> length ops"
  unfolding last_use_def by (metis length_dropWhile_le length_rev)

lemma order_step_cases:
  "order_step N ao x = ao \<and> op_key x \<notin> set ao
   \<or> (\<exists>l. order_step N ao x = l @ [op_key x] \<and> op_key x \<notin> set l
          \<and> (l = remove1 (op_key x) ao \<or> l = tl ao \<or> l = ao))"
  if "distinct ao"
proof -
  have "\<And>j. j \<notin> set ao \<Longrightarrow> j \<notin> set (tl ao)" by (cases ao) auto
  then show ?thesis using that by (cases x) (auto simp: order_step_def)
qed

lemma sorted_wrt_part:
  assumes "sorted_wrt P ao" and "distinct ao"
    and "l = remove1 k ao \<or> l = tl ao \<or> l = ao"
  shows "sorted_wrt P l \<and> distinct l \<and> set l \<subseteq> set ao"
proof -
  have "sorted_wrt P (remove1 k ao)"
    using assms(1,2) by (simp add: distinct_remove1_removeAll removeAll_filter_not_eq sorted_wrt_filter)
  moreover have "sorted_wrt P (tl ao)" using assms(1) by (cases ao) auto
  moreover have "distinct (tl ao)" using assms(2) by (simp add: distinct_tl)
  moreover have "set (tl ao) \<subseteq> set ao" by (cases ao) auto
  ultimately show ?thesis using assms by (auto dest: notin_set_remove1)
qed

lemma order_sorted:
  fixes ops :: "'v cache_op list"
  shows "distinct (foldl (order_step N) [] ops)
     \<and> sorted_wrt (\<lambda>a b. last_use ops a < last_use ops b) (foldl (order_step N) [] ops)"
proof (induction ops rule: rev_induct)
  case Nil
  then show ?case by simp
next
  case (snoc x ops)
  let ?ao = "foldl (order_step N) [] ops"
  let ?P = "\<lambda>a b. last_use ops a < last_use ops b"
  let ?Q = "\<lambda>a b. last_use (ops @ [x]) a < last_use (ops @ [x]) b"
  from snoc have d: "distinct ?ao" and s: "sorted_wrt ?P ?ao" by auto
  have f: "foldl (order_step N) [] (ops @ [x]) = order_step N ?ao x" by simp
  from order_step_cases[OF d, of N x]
  consider (same) "order_step N ?ao x = ?ao" "op_key x \<notin> set ?ao"
    | (moved) l where "order_step N ?ao x = l @ [op_key x]" "op_key x \<notin> set l"
        "l = remove1 (op_key x) ?ao \<or> l = tl ?ao \<or> l = ?ao"
    by blast
  then show ?case
  proof cases
    case same
    have "sorted_wrt ?Q ?ao"
      using s same(2) by (auto simp: last_use_snoc elim!: sorted_wrt_mono_rel[rotated])
    then show ?thesis using d same f by simp
  next
    case moved
    from sorted_wrt_part[OF s d moved(3)]
    have l: "sorted_wrt ?P l" "distinct l" "set l \<subseteq> set ?ao" by auto
    have "sorted_wrt ?Q l"
      using l(1) moved(2) by (auto simp: last_use_snoc elim!: sorted_wrt_mono_rel[rotated])
    moreover have "\<forall>a \<in> set l. ?Q a (op_key x)"
      using moved(2) last_use_le[of ops] by (auto simp: last_use_snoc less_Suc_eq_le)
    ultimately have "sorted_wrt ?Q (l @ [op_key x])" by (simp add: sorted_wrt_append)
    then show ?thesis using f moved l by simp
  qed
qed

lemma order_step_length:
  "1 \<le> N \<Longrightarrow> int (length ao) \<le> N \<Longrightarrow> int (length (order_step N ao x)) \<le> N"
  by (cases x) (auto simp: order_step_def length_remove1)

text \<open>A key with at most \<open>r\<close> later keys behind it survives \<open>N - 1 - r\<close> further calls.\<close>

lemma order_survives:
  assumes "ao = pre @ k # post" and "distinct ao" and "int (length ao) \<le> N"
    and "int (length post) + int (length xs) \<le> N - 1"
  shows "k \<in> set (foldl (order_step N) ao xs)"
  using assms
proof (induction xs arbitrary: ao pre post)
  case Nil
  then show ?case by simp
next
  case (Cons x xs)
  let ?ao' = "order_step N ao x"
  have "\<exists>pre' post'. ?ao' = pre' @ k # post' \<and> length post' \<le> Suc (length post)
          \<and> distinct ?ao' \<and> int (length ?ao') \<le> N"
  proof (cases "op_key x = k")
    case True
    then have "?ao' = remove1 k ao @ [k]" using Cons.prems(1) by (cases x) (auto simp: order_step_def)
    moreover have "distinct (remove1 k ao @ [k])" using Cons.prems(2) by auto
    moreover have "int (length (remove1 k ao @ [k])) \<le> N"
      using Cons.prems(1,3) by (simp add: length_remove1)
    ultimately show ?thesis by (metis append_Nil2 le_SucI list.size(3) zero_le append.assoc append_Cons)
  next
    case False
    let ?j = "op_key x"
    show ?thesis
    proof (cases "?j \<in> set ao")
      case True
      then have e: "?ao' = remove1 ?j ao @ [?j]" by (cases x) (auto simp: order_step_def)
      have r: "remove1 ?j ao = (if ?j \<in> set pre then remove1 ?j pre @ k # post
                                else pre @ k # remove1 ?j post)"
        using Cons.prems(1) False by (auto simp: remove1_append)
      have "distinct ?ao'" using e Cons.prems(2) by auto
      moreover have "int (length ?ao') \<le> N"
      proof -
        have "length ao > 0" using True by auto
        then show ?thesis using e True Cons.prems(3) by (simp add: length_remove1)
      qed
      moreover have "\<exists>pre' post'. ?ao' = pre' @ k # post' \<and> length post' \<le> Suc (length post)"
      proof (cases "?j \<in> set pre")
        case True
        then have "?ao' = remove1 ?j pre @ k # (post @ [?j])" using e r by simp
        then show ?thesis by (metis length_append_singleton order_refl)
      next
        case False
        then have "?ao' = pre @ k # (remove1 ?j post @ [?j])" using e r by simp
        moreover have "length (remove1 ?j post @ [?j]) \<le> Suc (length post)"
          by (simp add: length_remove1)
        ultimately show ?thesis by blast
      qed
      ultimately show ?thesis by blast
    next
      case nin: False
      show ?thesis
      proof (cases x)
        case (Get k')
        then have "?ao' = ao" using nin by (simp add: order_step_def)
        moreover have "length post \<le> Suc (length post)" by simp
        ultimately show ?thesis using Cons.prems(1,2,3) by metis
      next
        case (Put k' v)
        then have k': "k' = ?j" by simp
        show ?thesis
        proof (cases "int (length ao) \<ge> N")
          case True
          then have e: "?ao' = tl ao @ [?j]" using Put nin by (simp add: order_step_def)
          have "pre \<noteq> []"
          proof
            assume "pre = []"
            then have "length ao = Suc (length post)" using Cons.prems(1) by simp
            then show False using True Cons.prems(4) by simp
          qed
          then have "tl ao = tl pre @ k # post" using Cons.prems(1) by simp
          then have "?ao' = tl pre @ k # (post @ [?j])" using e by simp
          moreover have "?j \<notin> set (tl ao)" using nin by (cases ao) auto
          then have "distinct ?ao'" using e Cons.prems(2) by (simp add: distinct_tl)
          moreover have "int (length ?ao') \<le> N" using e Cons.prems(1,3) by simp
          ultimately show ?thesis by (metis length_append_singleton order_refl)
        next
          case False
          then have e: "?ao' = ao @ [?j]" using Put nin by (simp add: order_step_def)
          then have "?ao' = pre @ k # (post @ [?j])" using Cons.prems(1) by simp
          moreover have "distinct ?ao'" using e nin Cons.prems(2) by simp
          moreover have "int (length ?ao') \<le> N" using e False by simp
          ultimately show ?thesis by (metis length_append_singleton order_refl)
        qed
      qed
    qed
  qed
  then obtain pre' post' where p: "?ao' = pre' @ k # post'" "length post' \<le> Suc (length post)"
    "distinct ?ao'" "int (length ?ao') \<le> N" by blast
  have "int (length post') + int (length xs) \<le> N - 1" using p(2) Cons.prems(4) by simp
  from Cons.IH[OF p(1) p(3) p(4) this] show ?case by simp
qed

lemma order_distinct_puts:
  assumes "distinct (ao @ ks)" and "int (length (ao @ ks)) \<le> N"
  shows "foldl (order_step N) ao (map (\<lambda>k. Put k (v k)) ks) = ao @ ks"
  using assms
proof (induction ks arbitrary: ao)
  case Nil
  then show ?case by simp
next
  case (Cons k ks)
  have "order_step N ao (Put k (v k)) = ao @ [k]"
    using Cons.prems by (auto simp: order_step_def)
  then show ?case using Cons.IH[of "ao @ [k]"] Cons.prems by simp
qed

lemma cache_zero_run:
  assumes "cache c = []" and "access_order c = []" and "max_size c = 0"
    and "cache_run c xs = Inr c'"
  shows "cache c' = []"
  using assms
proof (induction xs arbitrary: c)
  case Nil
  then show ?case by simp
next
  case (Cons x xs)
  show ?case
  proof (cases x)
    case (Get k)
    then have "cache_step c x = Inr c" using Cons.prems(1) by (simp add: cache_step_def get_def dict_has_def)
    then show ?thesis using Cons by simp
  next
    case (Put k v)
    then have "cache_step c x = Inl IndexError"
      using Cons.prems(1,2,3) by (simp add: cache_step_def put_def dict_has_def)
    then show ?thesis using Cons.prems(4) by simp
  qed
qed

lemma cache_ok_keys: "cache_ok N c \<Longrightarrow> cache_keys c = set (access_order c)"
  by (simp add: cache_ok_def cache_inv_def cache_keys_def)

lemma cache_ok_length: "cache_ok N c \<Longrightarrow> length (access_order c) = length (cache c)"
  by (simp add: cache_ok_def inv_length)

text \<open>
  Claim C7. Take a cache of capacity \<open>N\<close> and any history \<open>ops\<close> of \<open>get\<close> and
  \<open>put\<close> calls on it, starting empty. With \<open>0 \<le> N\<close> the cache never holds more than
  \<open>N\<close> entries. With \<open>1 \<le> N\<close> no call raises, and in the state \<open>c\<close> reached:
  \<^item> a \<open>put\<close> of a new key into the full cache removes exactly one key, \<open>lru\<close>, and
    every other cached key was used later in the history than \<open>lru\<close> was;
  \<^item> a \<open>get\<close> or \<open>put\<close> on a present key \<open>k\<close> makes \<open>k\<close> the most recently used
    key, and \<open>k\<close> is still cached after any \<open>N - 1\<close> further calls.
  Putting \<open>N + 1\<close> distinct keys into the empty cache leaves all of them but the first.
\<close>

theorem cache_bounded_strict_lru:
  fixes ops :: "'v cache_op list"
  assumes "0 \<le> N"
  shows "(\<forall>c. cache_run (cache_init N) ops = Inr c \<longrightarrow> int (length (cache c)) \<le> N)
    \<and> (1 \<le> N \<longrightarrow> (\<exists>c. cache_run (cache_init N) ops = Inr c
          \<and> (\<forall>k v. k \<notin> cache_keys c \<and> int (length (cache c)) = N \<longrightarrow>
               (\<exists>c' lru. put c k v = Inr c' \<and> lru \<in> cache_keys c
                   \<and> cache_keys c' = insert k (cache_keys c - {lru})
                   \<and> (\<forall>k' \<in> cache_keys c. k' \<noteq> lru \<longrightarrow> last_use ops lru < last_use ops k')))
          \<and> (\<forall>k x more. k \<in> cache_keys c \<and> op_key x = k \<and> int (length more) \<le> N - 1 \<longrightarrow>
               (\<exists>c1 c2. cache_step c x = Inr c1 \<and> last (access_order c1) = k
                    \<and> cache_run c1 more = Inr c2 \<and> k \<in> cache_keys c2))))
    \<and> (\<forall>ks (v :: 'v option). 1 \<le> N \<and> distinct ks \<and> int (length ks) = N + 1 \<longrightarrow>
          (\<exists>c. cache_run (cache_init N) (map (\<lambda>k. Put k v) ks) = Inr c
               \<and> cache_keys c = set (tl ks) \<and> hd ks \<notin> cache_keys c))"
proof (intro conjI)
  show "\<forall>c. cache_run (cache_init N) ops = Inr c \<longrightarrow> int (length (cache c)) \<le> N"
  proof (cases "1 \<le> N")
    case True
    then show ?thesis using run_ok[OF cache_ok_init[OF assms] True, of ops]
      by (auto simp: cache_ok_def)
  next
    case False
    then have "N = 0" using assms by simp
    then show ?thesis using cache_zero_run[of "cache_init N" ops]
      by (auto simp: cache_init_def)
  qed
next
  show "1 \<le> N \<longrightarrow> (\<exists>c. cache_run (cache_init N) ops = Inr c
          \<and> (\<forall>k v. k \<notin> cache_keys c \<and> int (length (cache c)) = N \<longrightarrow>
               (\<exists>c' lru. put c k v = Inr c' \<and> lru \<in> cache_keys c
                   \<and> cache_keys c' = insert k (cache_keys c - {lru})
                   \<and> (\<forall>k' \<in> cache_keys c. k' \<noteq> lru \<longrightarrow> last_use ops lru < last_use ops k')))
          \<and> (\<forall>k x more. k \<in> cache_keys c \<and> op_key x = k \<and> int (length more) \<le> N - 1 \<longrightarrow>
               (\<exists>c1 c2. cache_step c x = Inr c1 \<and> last (access_order c1) = k
                    \<and> cache_run c1 more = Inr c2 \<and> k \<in> cache_keys c2)))"
  proof
    assume N: "1 \<le> N"
    from run_ok[OF cache_ok_init[OF assms] N, of ops] obtain c where
      c: "cache_run (cache_init N) ops = Inr c" "cache_ok N c"
         "access_order c = foldl (order_step N) [] ops"
      by (auto simp: cache_init_def)
    let ?ao = "access_order c"
    have d: "distinct ?ao" and srt: "sorted_wrt (\<lambda>a b. last_use ops a < last_use ops b) ?ao"
      using order_sorted[of N ops] c(3) by auto
    have keys: "cache_keys c = set ?ao" by (rule cache_ok_keys[OF c(2)])
    have len: "length ?ao = length (cache c)" by (rule cache_ok_length[OF c(2)])
    have evict: "\<exists>c' lru. put c k v = Inr c' \<and> lru \<in> cache_keys c
                   \<and> cache_keys c' = insert k (cache_keys c - {lru})
                   \<and> (\<forall>k' \<in> cache_keys c. k' \<noteq> lru \<longrightarrow> last_use ops lru < last_use ops k')"
      if k: "k \<notin> cache_keys c" and full: "int (length (cache c)) = N" for k v
    proof -
      from put_ok[OF c(2) N, of k v] obtain c' where
        c': "put c k v = Inr c'" "cache_ok N c'"
            "access_order c' = order_step N ?ao (Put k v)" by blast
      from full N len obtain lru q where ao: "?ao = lru # q" by (cases ?ao) auto
      have "access_order c' = q @ [k]" using c'(3) k keys full len ao by (simp add: order_step_def)
      then have "cache_keys c' = insert k (set q)" using cache_ok_keys[OF c'(2)] by simp
      moreover have "set q = cache_keys c - {lru}" using keys ao d by auto
      moreover have "\<forall>k' \<in> cache_keys c. k' \<noteq> lru \<longrightarrow> last_use ops lru < last_use ops k'"
        using srt ao keys by auto
      moreover have "lru \<in> cache_keys c" using keys ao by simp
      ultimately show ?thesis using c'(1) by blast
    qed
    have promote: "\<exists>c1 c2. cache_step c x = Inr c1 \<and> last (access_order c1) = k
                    \<and> cache_run c1 more = Inr c2 \<and> k \<in> cache_keys c2"
      if k: "k \<in> cache_keys c" and x: "op_key x = k" and m: "int (length more) \<le> N - 1"
      for k x more
    proof -
      from step_ok[OF c(2) N, of x] obtain c1 where
        c1: "cache_step c x = Inr c1" "cache_ok N c1"
            "access_order c1 = order_step N ?ao x" by blast
      have ao1: "access_order c1 = remove1 k ?ao @ [k]"
        using c1(3) k keys x by (cases x) (auto simp: order_step_def)
      from run_ok[OF c1(2) N, of more] obtain c2 where
        c2: "cache_run c1 more = Inr c2" "cache_ok N c2"
            "access_order c2 = foldl (order_step N) (access_order c1) more" by blast
      have "distinct (access_order c1)" "int (length (access_order c1)) \<le> N"
        using c1(2) cache_ok_length[OF c1(2)] by (auto simp: cache_ok_def cache_inv_def)
      moreover have "int (length ([]::string list)) + int (length more) \<le> N - 1" using m by simp
      ultimately have "k \<in> set (foldl (order_step N) (access_order c1) more)"
        using order_survives[OF ao1] by blast
      then have "k \<in> cache_keys c2" using c2(3) cache_ok_keys[OF c2(2)] by simp
      then show ?thesis using c1(1) c2(1) ao1 by auto
    qed
    show "\<exists>c. cache_run (cache_init N) ops = Inr c
          \<and> (\<forall>k v. k \<notin> cache_keys c \<and> int (length (cache c)) = N \<longrightarrow>
               (\<exists>c' lru. put c k v = Inr c' \<and> lru \<in> cache_keys c
                   \<and> cache_keys c' = insert k (cache_keys c - {lru})
                   \<and> (\<forall>k' \<in> cache_keys c. k' \<noteq> lru \<longrightarrow> last_use ops lru < last_use ops k')))
          \<and> (\<forall>k x more. k \<in> cache_keys c \<and> op_key x = k \<and> int (length more) \<le> N - 1 \<longrightarrow>
               (\<exists>c1 c2. cache_step c x = Inr c1 \<and> last (access_order c1) = k
                    \<and> cache_run c1 more = Inr c2 \<and> k \<in> cache_keys c2))"
      using c(1) evict promote by blast
  qed
next
  show "\<forall>ks (v :: 'v option). 1 \<le> N \<and> distinct ks \<and> int (length ks) = N + 1 \<longrightarrow>
          (\<exists>c. cache_run (cache_init N) (map (\<lambda>k. Put k v) ks) = Inr c
               \<and> cache_keys c = set (tl ks) \<and> hd ks \<notin> cache_keys c)"
  proof (intro allI impI)
    fix ks :: "string list" and v :: "'v option"
    assume a: "1 \<le> N \<and> distinct ks \<and> int (length ks) = N + 1"
    then have N: "1 \<le> N" and dk: "distinct ks" and lk: "int (length ks) = N + 1" by auto
    from lk N have "ks \<noteq> []" by auto
    then obtain ks' k where ks: "ks = ks' @ [k]" by (metis rev_exhaust)
    have lk': "int (length ks') = N" using lk ks by simp
    then have ne: "ks' \<noteq> []" using N by auto
    from run_ok[OF cache_ok_init[OF assms] N, of "map (\<lambda>k. Put k v) ks"] obtain c where
      c: "cache_run (cache_init N) (map (\<lambda>k. Put k v) ks) = Inr c" "cache_ok N c"
         "access_order c = foldl (order_step N) [] (map (\<lambda>k. Put k v) ks)"
      by (auto simp: cache_init_def)
    have "foldl (order_step N) [] (map (\<lambda>k. Put k v) ks') = [] @ ks'"
      by (rule order_distinct_puts) (use dk ks lk' in auto)
    then have "access_order c = order_step N ks' (Put k v)" using c(3) ks by simp
    also have "\<dots> = tl ks' @ [k]" using dk ks lk' by (simp add: order_step_def)
    also have "\<dots> = tl ks" using ks ne by simp
    finally have ao: "access_order c = tl ks" .
    have "hd ks \<notin> set (tl ks)" using dk \<open>ks \<noteq> []\<close> by (cases ks) auto
    then show "\<exists>c. cache_run (cache_init N) (map (\<lambda>k. Put k v) ks) = Inr c
               \<and> cache_keys c = set (tl ks) \<and> hd ks \<notin> cache_keys c"
      using c(1) ao cache_ok_keys[OF c(2)] by auto
  qed
qed


theorem cache_bounded_strict_lru_witness:
  "\<exists>c. cache_run (cache_init 2) [Put ''a'' (Some (1::nat)), Put ''b'' (Some 2), Get ''a''] = Inr c
     \<and> int (length (cache c)) \<le> 2 \<and> cache_keys c = {''a'', ''b''}
     \<and> access_order c = [''b'', ''a'']
     \<and> (\<exists>c'. put c ''c'' None = Inr c' \<and> cache_keys c' = {''a'', ''c''})
     \<and> (\<exists>c1 c2. cache_step c (Get ''b'') = Inr c1 \<and> last (access_order c1) = ''b''
           \<and> cache_run c1 [Put ''z'' None] = Inr c2 \<and> ''b'' \<in> cache_keys c2)"
proof -
  let ?ops = "[Put ''a'' (Some (1::nat)), Put ''b'' (Some 2), Get ''a'']"
  let ?c = "\<lparr>cache = [(''a'', Some (1::nat)), (''b'', Some 2)], access_order = [''b'', ''a''],
             max_size = 2\<rparr>"
  have run: "cache_run (cache_init 2) ?ops = Inr ?c" by code_simp
  have p: "put ?c ''c'' None
     = Inr \<lparr>cache = [(''a'', Some 1), (''c'', None)], access_order = [''a'', ''c''], max_size = 2\<rparr>"
    by code_simp
  have keys: "cache_keys ?c = {''a'', ''b''}" by (auto simp: cache_keys_def)
  have t0: "(0::int) \<le> 2" and t1: "(1::int) \<le> 2" by simp_all
  note t = cache_bounded_strict_lru [of 2 ?ops, OF t0]
  from t have len: "int (length (cache ?c)) \<le> 2" using run by simp
  from t t1 obtain c where c: "cache_run (cache_init 2) ?ops = Inr c"
    and pr: "\<forall>k x more. k \<in> cache_keys c \<and> op_key x = k \<and> int (length more) \<le> 2 - 1 \<longrightarrow>
               (\<exists>c1 c2. cache_step c x = Inr c1 \<and> last (access_order c1) = k
                    \<and> cache_run c1 more = Inr c2 \<and> k \<in> cache_keys c2)"
    apply (elim conjE)
    apply (erule impE, assumption)
    apply (erule exE)
    apply (elim conjE)
    apply blast
    done
  have cc: "c = ?c" using c run by simp
  have pre: "''b'' \<in> cache_keys c \<and> op_key (Get ''b'' :: nat cache_op) = ''b''
          \<and> int (length [Put ''z'' (None :: nat option)]) \<le> 2 - 1"
    using keys cc by simp
  have "\<exists>c1 c2. cache_step c (Get ''b'') = Inr c1 \<and> last (access_order c1) = ''b''
           \<and> cache_run c1 [Put ''z'' None] = Inr c2 \<and> ''b'' \<in> cache_keys c2"
    by (rule pr[rule_format, OF pre])
  then show ?thesis using run p len keys cc by (auto simp: cache_keys_def)
qed

section \<open>Properties of the heap operations\<close>

lemma siftdown_loop_length [simp]: "length (siftdown_loop h s p x) = length h"
  by (induction h s p x rule: siftdown_loop.induct)
     (subst siftdown_loop.simps, simp add: Let_def)

lemma mset_update_move:
  assumes "i < length h" and "j < length h" and "i \<noteq> j"
  shows "mset ((h[i := h ! j])[j := x]) = mset (h[i := x])"
  using assms by (simp add: mset_update)

lemma siftdown_loop_mset:
  "p < length h \<Longrightarrow> mset (siftdown_loop h s p x) = mset (h[p := x])"
proof (induction h s p x rule: siftdown_loop.induct)
  case (1 heap startpos pos newitem)
  show ?case
  proof (cases "pos > startpos \<and> newitem < heap ! ((pos - 1) div 2)")
    case True
    let ?pp = "(pos - 1) div 2"
    have pp: "?pp < pos" using True by auto
    then have "mset (siftdown_loop (heap[pos := heap ! ?pp]) startpos ?pp newitem)
        = mset ((heap[pos := heap ! ?pp])[?pp := newitem])"
      using 1 True by simp
    also have "\<dots> = mset (heap[pos := newitem])"
      using mset_update_move[of pos heap ?pp newitem] pp 1(2) by simp
    finally show ?thesis using True by (subst siftdown_loop.simps) (simp add: Let_def)
  next
    case False
    then show ?thesis by (subst siftdown_loop.simps) (auto simp: Let_def)
  qed
qed

lemma siftdown_loop_heap:
  assumes "heap_except h p"
    and "\<forall>c. 0 < c \<and> c < length h \<and> (c - 1) div 2 = p \<longrightarrow> x \<le> h ! c"
  shows "is_heap (siftdown_loop h 0 p x)"
  using assms
proof (induction h "0::nat" p x rule: siftdown_loop.induct)
  case (1 heap pos newitem)
  let ?pp = "(pos - 1) div 2"
  from 1(2) have len: "pos < length heap"
    and A: "\<And>i. 0 < i \<Longrightarrow> i < length heap \<Longrightarrow> i \<noteq> pos \<Longrightarrow> (i - 1) div 2 \<noteq> pos
              \<Longrightarrow> heap ! ((i - 1) div 2) \<le> heap ! i"
    and B: "\<And>c. 0 < c \<Longrightarrow> c < length heap \<Longrightarrow> (c - 1) div 2 = pos \<Longrightarrow> 0 < pos
              \<Longrightarrow> heap ! ?pp \<le> heap ! c"
    by (auto simp: heap_except_def)
  from 1(3) have C: "\<And>c. 0 < c \<Longrightarrow> c < length heap \<Longrightarrow> (c - 1) div 2 = pos \<Longrightarrow> newitem \<le> heap ! c"
    by auto
  show ?case
  proof (cases "pos > 0 \<and> newitem < heap ! ?pp")
    case True
    then have pp: "?pp < pos" by auto
    let ?h = "heap[pos := heap ! ?pp]"
    have he: "heap_except ?h ?pp"
      unfolding heap_except_def
    proof (intro conjI allI impI)
      show "?pp < length ?h" using pp len by simp
    next
      fix i assume i: "0 < i \<and> i < length ?h \<and> i \<noteq> ?pp \<and> (i - 1) div 2 \<noteq> ?pp"
      then have ip: "i \<noteq> pos" by auto
      show "?h ! ((i - 1) div 2) \<le> ?h ! i"
      proof (cases "(i - 1) div 2 = pos")
        case True
        then show ?thesis using B[of i] i ip len \<open>0 < pos \<and> _\<close> by simp
      next
        case False
        then show ?thesis using A[of i] i ip by simp
      qed
    next
      fix c assume c: "0 < c \<and> c < length ?h \<and> (c - 1) div 2 = ?pp \<and> 0 < ?pp"
      have ppp: "(?pp - 1) div 2 < ?pp" using c by arith
      have g: "heap ! ((?pp - 1) div 2) \<le> heap ! ?pp"
        using A[of ?pp] c pp len ppp by simp
      show "?h ! ((?pp - 1) div 2) \<le> ?h ! c"
      proof (cases "c = pos")
        case True
        then show ?thesis using g pp ppp len by simp
      next
        case False
        have "heap ! ?pp \<le> heap ! c" using A[of c] c False pp by simp
        then show ?thesis using g False pp ppp by simp
      qed
    qed
    have ch: "\<forall>c. 0 < c \<and> c < length ?h \<and> (c - 1) div 2 = ?pp \<longrightarrow> newitem \<le> ?h ! c"
    proof (intro allI impI)
      fix c assume c: "0 < c \<and> c < length ?h \<and> (c - 1) div 2 = ?pp"
      show "newitem \<le> ?h ! c"
      proof (cases "c = pos")
        case True
        then show ?thesis using \<open>0 < pos \<and> _\<close> len by (simp add: less_imp_le)
      next
        case False
        have "heap ! ?pp \<le> heap ! c" using A[of c] c False pp by simp
        then have "newitem \<le> heap ! c" using \<open>0 < pos \<and> _\<close> by (meson less_le_trans less_imp_le)
        then show ?thesis using False by simp
      qed
    qed
    have "is_heap (siftdown_loop ?h 0 ?pp newitem)"
      using 1(1)[OF _ refl refl _ he ch] True by simp
    then show ?thesis using True by (subst siftdown_loop.simps) (simp add: Let_def)
  next
    case False
    have "is_heap (heap[pos := newitem])"
      unfolding is_heap_def
    proof (intro allI impI)
      fix i assume i: "0 < i \<and> i < length (heap[pos := newitem])"
      show "heap[pos := newitem] ! ((i - 1) div 2) \<le> heap[pos := newitem] ! i"
      proof (cases "i = pos")
        case True
        then have "(i - 1) div 2 \<noteq> pos" using i by auto
        then show ?thesis using True False i len by auto
      next
        case ip: False
        show ?thesis
        proof (cases "(i - 1) div 2 = pos")
          case True
          then show ?thesis using C[of i] i ip len by simp
        next
          case False
          then show ?thesis using A[of i] i ip by simp
        qed
      qed
    qed
    then show ?thesis using False by (subst siftdown_loop.simps) (auto simp: Let_def)
  qed
qed

lemma siftup_loop_props:
  assumes "endpos = length h" and "heap_except h p"
  shows "case siftup_loop h endpos p of (h', p') \<Rightarrow>
           heap_except h' p' \<and> length h' = length h \<and> \<not> 2 * p' + 1 < length h'
           \<and> (\<forall>x. mset (h'[p' := x]) = mset (h[p := x]))"
  using assms
proof (induction h endpos p rule: siftup_loop.induct)
  case (1 heap endpos pos)
  let ?l = "2 * pos + 1"
  from 1(3) have len: "pos < length heap"
    and A: "\<And>i. 0 < i \<Longrightarrow> i < length heap \<Longrightarrow> i \<noteq> pos \<Longrightarrow> (i - 1) div 2 \<noteq> pos
              \<Longrightarrow> heap ! ((i - 1) div 2) \<le> heap ! i"
    and B: "\<And>c. 0 < c \<Longrightarrow> c < length heap \<Longrightarrow> (c - 1) div 2 = pos \<Longrightarrow> 0 < pos
              \<Longrightarrow> heap ! ((pos - 1) div 2) \<le> heap ! c"
    by (auto simp: heap_except_def)
  show ?case
  proof (cases "?l < endpos")
    case False
    then show ?thesis using 1(2,3) by (subst siftup_loop.simps) (simp add: Let_def)
  next
    case True
    define cp where "cp = (if ?l + 1 < endpos \<and> \<not> heap ! ?l < heap ! (?l + 1) then ?l + 1 else ?l)"
    let ?h = "heap[pos := heap ! cp]"
    have cpl: "cp < length heap" using True 1(2) by (auto simp: cp_def)
    have cpp: "(cp - 1) div 2 = pos" "pos < cp" "0 < cp" by (auto simp: cp_def)
    have sib: "heap ! cp \<le> heap ! i" if "0 < i" "i < length heap" "(i - 1) div 2 = pos" for i
    proof -
      from that have "i = ?l \<or> i = ?l + 1" by arith
      then show ?thesis using that 1(2) by (auto simp: cp_def)
    qed
    have he: "heap_except ?h cp"
      unfolding heap_except_def
    proof (intro conjI allI impI)
      show "cp < length ?h" using cpl by simp
    next
      fix i assume i: "0 < i \<and> i < length ?h \<and> i \<noteq> cp \<and> (i - 1) div 2 \<noteq> cp"
      show "?h ! ((i - 1) div 2) \<le> ?h ! i"
      proof (cases "i = pos")
        case True
        then have "(i - 1) div 2 \<noteq> pos" using i by auto
        then show ?thesis using True B[of cp] cpp cpl i len by simp
      next
        case ip: False
        show ?thesis
        proof (cases "(i - 1) div 2 = pos")
          case True
          then show ?thesis using sib[of i] i ip len by simp
        next
          case False
          then show ?thesis using A[of i] i ip by simp
        qed
      qed
    next
      fix c assume c: "0 < c \<and> c < length ?h \<and> (c - 1) div 2 = cp \<and> 0 < cp"
      then have "c \<noteq> pos" using cpp by arith
      moreover have "heap ! cp \<le> heap ! c" using A[of c] c cpp calculation by simp
      ultimately show "?h ! ((cp - 1) div 2) \<le> ?h ! c" using cpp len by simp
    qed
    have IH: "case siftup_loop ?h endpos cp of (h', p') \<Rightarrow>
           heap_except h' p' \<and> length h' = length ?h \<and> \<not> 2 * p' + 1 < length h'
           \<and> (\<forall>x. mset (h'[p' := x]) = mset (?h[cp := x]))"
      using 1(1)[OF refl True refl, of cp] he 1(2) by (simp add: cp_def)
    have mv: "mset (?h[cp := x]) = mset (heap[pos := x])" for x
      using mset_update_move[of pos heap cp x] len cpl cpp by simp
    have "siftup_loop heap endpos pos = siftup_loop ?h endpos cp"
      using True by (subst siftup_loop.simps) (simp add: Let_def cp_def)
    then show ?thesis using IH mv by (auto split: prod.splits)
  qed
qed

lemma heap_except_of_heap:
  assumes "is_heap h" and "p < length h"
  shows "heap_except (h[p := x]) p"
  unfolding heap_except_def
proof (intro conjI allI impI)
  show "p < length (h[p := x])" using assms by simp
next
  fix i assume "0 < i \<and> i < length (h[p := x]) \<and> i \<noteq> p \<and> (i - 1) div 2 \<noteq> p"
  then show "h[p := x] ! ((i - 1) div 2) \<le> h[p := x] ! i"
    using assms(1) by (simp add: is_heap_def)
next
  fix c assume c: "0 < c \<and> c < length (h[p := x]) \<and> (c - 1) div 2 = p \<and> 0 < p"
  then have "(p - 1) div 2 \<noteq> p" "c \<noteq> p" by arith+
  moreover have "h ! ((p - 1) div 2) \<le> h ! p" "h ! p \<le> h ! c"
    using assms c by (auto simp: is_heap_def)
  ultimately show "h[p := x] ! ((p - 1) div 2) \<le> h[p := x] ! c" by simp
qed

lemma heap_except_update:
  assumes "heap_except h p"
  shows "heap_except (h[p := x]) p"
  unfolding heap_except_def
proof (intro conjI allI impI)
  show "p < length (h[p := x])" using assms by (simp add: heap_except_def)
next
  fix i assume "0 < i \<and> i < length (h[p := x]) \<and> i \<noteq> p \<and> (i - 1) div 2 \<noteq> p"
  then show "h[p := x] ! ((i - 1) div 2) \<le> h[p := x] ! i"
    using assms by (simp add: heap_except_def)
next
  fix c assume c: "0 < c \<and> c < length (h[p := x]) \<and> (c - 1) div 2 = p \<and> 0 < p"
  then have "(p - 1) div 2 \<noteq> p" "c \<noteq> p" by arith+
  moreover have "h ! ((p - 1) div 2) \<le> h ! c"
    using assms c by (simp add: heap_except_def)
  ultimately show "h[p := x] ! ((p - 1) div 2) \<le> h[p := x] ! c" by simp
qed

lemma siftup_heap:
  assumes "heap_except h 0"
  shows "is_heap (siftup h 0) \<and> mset (siftup h 0) = mset h"
proof -
  obtain h' p' where l: "siftup_loop h (length h) 0 = (h', p')" by fastforce
  from siftup_loop_props[OF refl assms] l
  have pr: "heap_except h' p'" "length h' = length h" "\<not> 2 * p' + 1 < length h'"
    "\<And>x. mset (h'[p' := x]) = mset (h[0 := x])" by auto
  let ?x = "h ! 0"
  let ?h2 = "h'[p' := ?x]"
  have e: "siftup h 0 = siftdown_loop ?h2 0 p' ?x"
    using l pr(1) by (simp add: siftup_def siftdown_def heap_except_def Let_def)
  have "heap_except ?h2 p'" by (rule heap_except_update[OF pr(1)])
  moreover have "\<forall>c. 0 < c \<and> c < length ?h2 \<and> (c - 1) div 2 = p' \<longrightarrow> ?x \<le> ?h2 ! c"
    using pr(3) by (auto; arith)
  ultimately have "is_heap (siftup h 0)" using e siftdown_loop_heap by metis
  moreover have "mset (siftup h 0) = mset h"
    using e siftdown_loop_mset[of p' ?h2 0 ?x] pr(1) pr(4)[of ?x] by (simp add: heap_except_def)
  ultimately show ?thesis by simp
qed

lemma heappush_props:
  assumes "is_heap h"
  shows "is_heap (heappush h x) \<and> mset (heappush h x) = add_mset x (mset h)"
proof -
  let ?h = "h @ [x]"
  have e: "heappush h x = siftdown_loop ?h 0 (length h) x"
    by (simp add: heappush_def siftdown_def)
  have he: "heap_except ?h (length h)"
    unfolding heap_except_def
  proof (intro conjI allI impI)
    show "length h < length ?h" by simp
  next
    fix i assume i: "0 < i \<and> i < length ?h \<and> i \<noteq> length h \<and> (i - 1) div 2 \<noteq> length h"
    then have "i < length h" "(i - 1) div 2 < length h" by auto
    then show "?h ! ((i - 1) div 2) \<le> ?h ! i"
      using assms i by (simp add: nth_append is_heap_def)
  next
    fix c assume "0 < c \<and> c < length ?h \<and> (c - 1) div 2 = length h \<and> 0 < length h"
    then have False by auto
    then show "?h ! ((length h - 1) div 2) \<le> ?h ! c" ..
  qed
  have ch: "\<forall>c. 0 < c \<and> c < length ?h \<and> (c - 1) div 2 = length h \<longrightarrow> x \<le> ?h ! c"
    by auto
  have "is_heap (heappush h x)" using siftdown_loop_heap[OF he ch] e by simp
  moreover have "mset (heappush h x) = add_mset x (mset h)"
    using siftdown_loop_mset[of "length h" ?h 0 x] e by simp
  ultimately show ?thesis ..
qed

lemma foldl_heappush_props:
  "is_heap h \<Longrightarrow> is_heap (foldl heappush h xs) \<and> mset (foldl heappush h xs) = mset h + mset xs"
  by (induction xs arbitrary: h) (auto simp: heappush_props)

lemma heap_root_min:
  assumes "is_heap h"
  shows "i < length h \<Longrightarrow> h ! 0 \<le> h ! i"
proof (induction i rule: less_induct)
  case (less i)
  show ?case
  proof (cases "i = 0")
    case True
    then show ?thesis by simp
  next
    case False
    then have "(i - 1) div 2 < i" by auto
    moreover have "h ! ((i - 1) div 2) \<le> h ! i" using assms False less.prems by (simp add: is_heap_def)
    ultimately show ?thesis using less.IH[of "(i - 1) div 2"] less.prems by auto
  qed
qed

lemma is_heap_butlast: "is_heap h \<Longrightarrow> is_heap (butlast h)"
  by (auto simp: is_heap_def nth_butlast)

lemma heappop_props:
  assumes "is_heap h" and "h \<noteq> []"
  shows "\<exists>x h'. heappop h = Inr (x, h') \<and> mset h = add_mset x (mset h') \<and> is_heap h'
           \<and> (\<forall>y \<in> set h. x \<le> y)"
proof -
  have min: "\<forall>y \<in> set h. h ! 0 \<le> y"
    using heap_root_min[OF assms(1)] by (auto simp: in_set_conv_nth)
  let ?h1 = "butlast h"
  show ?thesis
  proof (cases "?h1 = []")
    case True
    then have h: "h = [last h]" using assms(2) by (metis append_butlast_last_id append_Nil)
    have "heappop h = Inr (last h, [])" using True assms(2) by (simp add: heappop_def Let_def)
    moreover have "mset h = add_mset (last h) (mset [])" using h by (metis mset.simps)
    moreover have "\<forall>y \<in> set h. last h \<le> y" using h by (metis empty_iff empty_set order_refl set_ConsD)
    ultimately show ?thesis by (auto simp: is_heap_def)
  next
    case False
    let ?h2 = "?h1[0 := last h]"
    have pop: "heappop h = Inr (?h1 ! 0, siftup ?h2 0)"
      using False assms(2) by (simp add: heappop_def Let_def)
    have pos: "0 < length ?h1" using False by (cases ?h1) auto
    have "heap_except ?h2 0"
      by (rule heap_except_of_heap[OF is_heap_butlast[OF assms(1)] pos])
    from siftup_heap[OF this]
    have s: "is_heap (siftup ?h2 0)" "mset (siftup ?h2 0) = mset ?h2" by auto
    have r: "?h1 ! 0 = h ! 0" using pos by (simp add: nth_butlast)
    have "mset h = add_mset (last h) (mset ?h1)"
      using assms(2) by (metis append_butlast_last_id mset.simps(2) mset_append union_mset_add_mset_right add.right_neutral mset.simps(1))
    moreover have "mset ?h2 = add_mset (last h) (mset ?h1 - {#?h1 ! 0#})"
      using pos by (simp add: mset_update)
    moreover have "?h1 ! 0 \<in># mset ?h1" using pos by simp
    ultimately have "mset h = add_mset (?h1 ! 0) (mset (siftup ?h2 0))"
      using s(2) by simp
    then show ?thesis using pop s(1) min r by auto
  qed
qed

lemma sort_min_Cons:
  fixes h :: "'a::linorder list"
  assumes "mset h = add_mset x (mset h')" and "\<forall>y \<in> set h. x \<le> y"
  shows "sort h = x # sort h'"
proof (rule properties_for_sort)
  show "mset (x # sort h') = mset h" using assms(1) by simp
  have "set_mset (mset h) = insert x (set_mset (mset h'))" using assms(1) by simp
  then have "set h' \<subseteq> set h" by auto
  then show "sorted (x # sort h')" using assms(2) by auto
qed

lemma pop_urgent_props:
  assumes "is_heap h" and "n \<le> length h"
  shows "\<exists>h'. pop_urgent n h u t
             = Inr (h', u @ map (\<lambda>e. snd (snd e)) (take n (sort h)), t @ take n (sort h))
           \<and> is_heap h' \<and> mset h = mset (take n (sort h)) + mset h'"
  using assms
proof (induction n arbitrary: h u t)
  case 0
  then show ?case by simp
next
  case (Suc n)
  then have ne: "h \<noteq> []" by auto
  from heappop_props[OF Suc.prems(1) ne] obtain x h1 where
    x: "heappop h = Inr (x, h1)" "mset h = add_mset x (mset h1)" "is_heap h1"
       "\<forall>y \<in> set h. x \<le> y" by blast
  have srt: "sort h = x # sort h1" by (rule sort_min_Cons[OF x(2) x(4)])
  have "length h = Suc (length h1)" using x(2) by (metis size_mset size_add_mset)
  then have n: "n \<le> length h1" using Suc.prems(2) by simp
  obtain p d i where xe: "x = (p, d, i)" by (cases x) auto
  from Suc.IH[OF x(3) n, of "u @ [i]" "t @ [x]"] obtain h' where
    h': "pop_urgent n h1 (u @ [i]) (t @ [x])
           = Inr (h', (u @ [i]) @ map (\<lambda>e. snd (snd e)) (take n (sort h1)),
                  (t @ [x]) @ take n (sort h1))"
        "is_heap h'" "mset h1 = mset (take n (sort h1)) + mset h'" by blast
  have "pop_urgent (Suc n) h u t = pop_urgent n h1 (u @ [i]) (t @ [x])"
    using ne x(1) xe by simp
  then show ?case using h' srt xe x(2) by auto
qed

lemma get_next_urgent_props:
  assumes "is_heap (urgent_treatments q)"
  shows "\<exists>q'. get_next_urgent_treatments q k
             = Inr (map (\<lambda>e. snd (snd e)) (take (nat k) (sort (urgent_treatments q))), q')
           \<and> is_heap (urgent_treatments q')
           \<and> mset (urgent_treatments q') = mset (urgent_treatments q)
           \<and> overdue_treatments q' = overdue_treatments q"
proof -
  let ?h = "urgent_treatments q"
  let ?n = "nat (min k (int (length ?h)))"
  have n: "?n \<le> length ?h" by simp
  from pop_urgent_props[OF assms n, of "[]" "[]"] obtain h' where
    h': "pop_urgent ?n ?h [] [] = Inr (h', map (\<lambda>e. snd (snd e)) (take ?n (sort ?h)), take ?n (sort ?h))"
        "is_heap h'" "mset ?h = mset (take ?n (sort ?h)) + mset h'" by auto
  have tk: "take ?n (sort ?h) = take (nat k) (sort ?h)"
  proof (cases "k \<le> int (length ?h)")
    case True
    then show ?thesis by (simp add: min_def)
  next
    case False
    then have "?n = length (sort ?h)" "nat k \<ge> length (sort ?h)" by (auto simp: min_def)
    then show ?thesis by simp
  qed
  let ?q' = "q\<lparr>urgent_treatments := foldl heappush h' (take ?n (sort ?h))\<rparr>"
  have "get_next_urgent_treatments q k = Inr (map (\<lambda>e. snd (snd e)) (take (nat k) (sort ?h)), ?q')"
    using h'(1) tk by (simp add: get_next_urgent_treatments_def)
  moreover have "is_heap (urgent_treatments ?q')" "mset (urgent_treatments ?q') = mset ?h"
    using foldl_heappush_props[OF h'(2), of "take ?n (sort ?h)"] h'(3) by auto
  ultimately show ?thesis by auto
qed

lemma add_treatment_props:
  assumes "is_heap (urgent_treatments q)"
  shows "is_heap (urgent_treatments (add_treatment q tid fu sev now1 now2))
    \<and> mset (urgent_treatments (add_treatment q tid fu sev now1 now2))
        = add_mset (calculate_priority fu sev now1, fu, tid) (mset (urgent_treatments q))
    \<and> overdue_treatments (add_treatment q tid fu sev now1 now2)
        = (if fu < now2 then insert tid (overdue_treatments q) else overdue_treatments q)"
  using heappush_props[OF assms, of "(calculate_priority fu sev now1, fu, tid)"]
  by (simp add: add_treatment_def Let_def)

lemma tq_run_props:
  assumes "is_heap (urgent_treatments q)"
  shows "\<exists>q'. tq_run q evs = Inr q' \<and> is_heap (urgent_treatments q')
           \<and> mset (urgent_treatments q') = mset (urgent_treatments q) + mset (added_entries evs)
           \<and> overdue_treatments q' = overdue_treatments q \<union> added_overdue evs"
  using assms
proof (induction evs arbitrary: q)
  case Nil
  then show ?case by simp
next
  case (Cons ev evs)
  show ?case
  proof (cases ev)
    case (AddTreatment tid fu sev now1 now2)
    let ?q1 = "add_treatment q tid fu sev now1 now2"
    note p = add_treatment_props[OF Cons.prems, of tid fu sev now1 now2]
    from Cons.IH[of ?q1] p obtain q' where
      "tq_run ?q1 evs = Inr q'" "is_heap (urgent_treatments q')"
      "mset (urgent_treatments q') = mset (urgent_treatments ?q1) + mset (added_entries evs)"
      "overdue_treatments q' = overdue_treatments ?q1 \<union> added_overdue evs" by blast
    then show ?thesis using AddTreatment p by (auto simp: tq_step_def)
  next
    case (NextUrgent k)
    from get_next_urgent_props[OF Cons.prems, of k] obtain ids q1 where
      q1: "get_next_urgent_treatments q k = Inr (ids, q1)" "is_heap (urgent_treatments q1)"
          "mset (urgent_treatments q1) = mset (urgent_treatments q)"
          "overdue_treatments q1 = overdue_treatments q" by blast
    from Cons.IH[OF q1(2)] q1 show ?thesis using NextUrgent by (auto simp: tq_step_def)
  next
    case Overdue
    then show ?thesis using Cons.IH[OF Cons.prems] by (auto simp: tq_step_def)
  qed
qed

lemma added_overdue_set:
  "added_overdue evs = {tid. \<exists>fu sev now1 now2. AddTreatment tid fu sev now1 now2 \<in> set evs \<and> fu < now2}"
  by (induction evs rule: added_overdue.induct) (auto, blast+)

lemma is_heap_Nil: "is_heap []"
  by (simp add: is_heap_def)

section \<open>The order of datetimes and their distance in days\<close>

lemma month_cases:
  "1 \<le> m \<Longrightarrow> m \<le> (12::int) \<Longrightarrow>
     m = 1 \<or> m = 2 \<or> m = 3 \<or> m = 4 \<or> m = 5 \<or> m = 6 \<or> m = 7 \<or> m = 8 \<or> m = 9
     \<or> m = 10 \<or> m = 11 \<or> m = 12"
  by arith

lemma days_before_month_next:
  assumes "1 \<le> m" and "m < 12"
  shows "days_before_month y (m + 1) = days_before_month y m + days_in_month y m"
proof -
  from assms have "m = 1 \<or> m = 2 \<or> m = 3 \<or> m = 4 \<or> m = 5 \<or> m = 6 \<or> m = 7 \<or> m = 8
      \<or> m = 9 \<or> m = 10 \<or> m = 11" by arith
  then show ?thesis
    by (elim disjE) (simp_all add: days_before_month_def days_before_month_tab_def days_in_month_def)
qed

lemma days_in_month_pos:
  assumes "1 \<le> m" and "m \<le> 12"
  shows "0 < days_in_month y m"
  using month_cases[OF assms] by (elim disjE) (simp_all add: days_in_month_def)

lemma days_before_month_mono:
  assumes "1 \<le> m" and "m \<le> m'" and "m' \<le> 12"
  shows "days_before_month y m \<le> days_before_month y m'"
proof -
  have "\<And>k. m + int k \<le> 12 \<Longrightarrow> days_before_month y m \<le> days_before_month y (m + int k)" 
  proof -
    fix k show "m + int k \<le> 12 \<Longrightarrow> days_before_month y m \<le> days_before_month y (m + int k)"
    proof (induction k)
      case 0
      then show ?case by simp
    next
      case (Suc k)
      have "days_before_month y (m + int k + 1)
              = days_before_month y (m + int k) + days_in_month y (m + int k)"
        by (rule days_before_month_next) (use assms(1) Suc.prems in auto)
      moreover have "0 < days_in_month y (m + int k)"
        by (rule days_in_month_pos) (use assms(1) Suc.prems in auto)
      moreover have "m + int (Suc k) = m + int k + 1" by simp
      moreover have "days_before_month y m \<le> days_before_month y (m + int k)"
        using Suc by simp
      ultimately show ?case by (metis add_increasing2 less_imp_le)
    qed
  qed
  from this[of "nat (m' - m)"] assms show ?thesis by simp
qed

lemma days_before_month_last:
  "days_before_month y 12 + days_in_month y 12 = 365 + (if is_leap y then 1 else 0)"
  by (simp add: days_before_month_def days_before_month_tab_def days_in_month_def)

lemma days_before_month_nonneg:
  assumes "1 \<le> m" and "m \<le> 12"
  shows "0 \<le> days_before_month y m"
  using month_cases[OF assms]
  by (elim disjE) (simp_all add: days_before_month_def days_before_month_tab_def)

lemma div_step:
  fixes y d :: int
  assumes "0 < d"
  shows "y div d - (y - 1) div d = (if y mod d = 0 then 1 else 0)"
proof -
  let ?r = "y mod d"
  let ?q = "y div d"
  have r: "0 \<le> ?r" "?r < d" using assms by simp_all
  have y: "y = ?r + ?q * d" by simp
  show ?thesis
  proof (cases "?r = 0")
    case True
    have e: "y - 1 = (d - 1) + (?q - 1) * d"
    proof -
      have "y = ?q * d" using y True by simp
      then have "y - 1 = ?q * d - 1" by simp
      also have "\<dots> = (d - 1) + (?q - 1) * d" by (simp add: algebra_simps)
      finally show ?thesis .
    qed
    have "((d - 1) + (?q - 1) * d) div d = (?q - 1) + (d - 1) div d"
      using assms div_mult_self1[of d "d - 1" "?q - 1"] by simp
    moreover have "(d - 1) div d = 0" using assms by (simp add: div_pos_pos_trivial)
    ultimately have "(y - 1) div d = ?q - 1" by (simp only: e)
    then show ?thesis using True by simp
  next
    case False
    then have r1: "0 \<le> ?r - 1" "?r - 1 < d" using r by simp_all
    have e: "y - 1 = (?r - 1) + ?q * d"
    proof -
      have "y - 1 = (?r + ?q * d) - 1" using y by simp
      then show ?thesis by simp
    qed
    have "((?r - 1) + ?q * d) div d = ?q + (?r - 1) div d"
      using assms div_mult_self1[of d "?r - 1" "?q"] by simp
    moreover have "(?r - 1) div d = 0" using r1 by (simp add: div_pos_pos_trivial)
    ultimately have "(y - 1) div d = ?q" by (simp only: e)
    then show ?thesis using False by simp
  qed
qed
lemma mod_chain:
  fixes y :: int
  shows "y mod 100 = 0 \<Longrightarrow> y mod 4 = 0" and "y mod 400 = 0 \<Longrightarrow> y mod 100 = 0"
proof -
  have a: "(4::int) dvd 100" and b: "(100::int) dvd 400" by simp_all
  show "y mod 100 = 0 \<Longrightarrow> y mod 4 = 0"
    using a by (metis dvd_trans mod_eq_0_iff_dvd)
  show "y mod 400 = 0 \<Longrightarrow> y mod 100 = 0"
    using b by (metis dvd_trans mod_eq_0_iff_dvd)
qed

lemma days_before_year_next:
  "days_before_year (y + 1) = days_before_year y + 365 + (if is_leap y then 1 else 0)"
proof -
  define a4 a100 a400 where "a4 = (y - 1) div 4" and "a100 = (y - 1) div 100"
    and "a400 = (y - 1) div 400"
  define b4 b100 b400 where "b4 = y div 4" and "b100 = y div 100" and "b400 = y div 400"
  define e4 e100 e400 :: int where "e4 = (if y mod 4 = 0 then 1 else 0)"
    and "e100 = (if y mod 100 = 0 then 1 else 0)"
    and "e400 = (if y mod 400 = 0 then 1 else 0)"
  have s4: "b4 - a4 = e4" unfolding b4_def a4_def e4_def by (rule div_step) simp
  have s100: "b100 - a100 = e100" unfolding b100_def a100_def e100_def by (rule div_step) simp
  have s400: "b400 - a400 = e400" unfolding b400_def a400_def e400_def by (rule div_step) simp
  have n: "days_before_year (y + 1) = y * 365 + b4 - b100 + b400"
    unfolding days_before_year_def Let_def b4_def b100_def b400_def by simp
  have o: "days_before_year y = (y - 1) * 365 + a4 - a100 + a400"
    unfolding days_before_year_def Let_def a4_def a100_def a400_def by simp
  have l: "e4 - e100 + e400 = (if is_leap y then 1 else 0)"
    using mod_chain[of y] unfolding e4_def e100_def e400_def is_leap_def
    by (cases "y mod 4 = 0"; cases "y mod 100 = 0"; cases "y mod 400 = 0") simp_all
  have "days_before_year (y + 1) = days_before_year y + 365 + (e4 - e100 + e400)"
    unfolding n o using s4 s100 s400 by (simp add: algebra_simps)
  then show ?thesis unfolding l .
qed

lemma days_before_year_mono:
  assumes "y \<le> y'"
  shows "days_before_year y \<le> days_before_year y'"
proof -
  have "days_before_year y \<le> days_before_year (y + int k)" for k
  proof (induction k)
    case 0
    then show ?case by simp
  next
    case (Suc k)
    have "days_before_year (y + int k + 1) \<ge> days_before_year (y + int k)"
      unfolding days_before_year_next by simp
    moreover have "y + int (Suc k) = y + int k + 1" by simp
    ultimately show ?case using Suc by (metis order_trans)
  qed
  from this[of "nat (y' - y)"] assms show ?thesis by simp
qed

lemma toordinal_mono:
  assumes "valid_datetime a" and "valid_datetime b"
    and "(year a, month a, day a) < (year b, month b, day b)"
  shows "toordinal a < toordinal b"
proof -
  from assms(1) have va: "1 \<le> month a" "month a \<le> 12" "1 \<le> day a"
    "day a \<le> days_in_month (year a) (month a)" by (auto simp: valid_datetime_def)
  from assms(2) have vb: "1 \<le> month b" "month b \<le> 12" "1 \<le> day b"
    "day b \<le> days_in_month (year b) (month b)" by (auto simp: valid_datetime_def)
  have upper: "days_before_month (year a) (month a) + day a
                 \<le> 365 + (if is_leap (year a) then 1 else 0)"
  proof -
    have "days_before_month (year a) (month a) \<le> days_before_month (year a) 12"
      by (rule days_before_month_mono) (use va in auto)
    moreover have "days_in_month (year a) (month a) \<le> days_in_month (year a) 12
        \<or> month a < 12"
      using va by (cases "month a = 12") auto
    ultimately show ?thesis
    proof (cases "month a = 12")
      case True
      then show ?thesis using va(4) days_before_month_last[of "year a"] by simp
    next
      case False
      then have lt: "month a < 12" using va by simp
      have "days_before_month (year a) (month a) + days_in_month (year a) (month a)
              = days_before_month (year a) (month a + 1)"
        using days_before_month_next[OF va(1) lt] by simp
      also have "\<dots> \<le> days_before_month (year a) 12"
        by (rule days_before_month_mono) (use va lt in auto)
      also have "\<dots> \<le> 365 + (if is_leap (year a) then 1 else 0)"
        using days_before_month_last[of "year a"] days_in_month_pos[of 12 "year a"] by simp
      finally show ?thesis using va(4) by simp
    qed
  qed
  from assms(3) consider (y) "year a < year b"
    | (m) "year a = year b" "month a < month b"
    | (d) "year a = year b" "month a = month b" "day a < day b"
    by (auto simp: less_prod_def order_le_less)
  then show ?thesis
  proof cases
    case y
    have "toordinal a \<le> days_before_year (year a + 1)"
      using upper by (simp add: toordinal_def days_before_year_next)
    also have "\<dots> \<le> days_before_year (year b)"
      by (rule days_before_year_mono) (use y in simp)
    also have "\<dots> < toordinal b"
      using vb days_before_month_nonneg[OF vb(1,2), of "year b"] by (simp add: toordinal_def)
    finally show ?thesis .
  next
    case m
    have "days_before_month (year a) (month a) + day a
            \<le> days_before_month (year a) (month a) + days_in_month (year a) (month a)"
      using va(4) by simp
    also have "\<dots> = days_before_month (year a) (month a + 1)"
      using days_before_month_next[OF va(1), of "year a"] m vb by simp
    also have "\<dots> \<le> days_before_month (year a) (month b)"
      by (rule days_before_month_mono) (use va vb m in auto)
    finally show ?thesis using m vb(3) by (simp add: toordinal_def)
  next
    case d
    then show ?thesis by (simp add: toordinal_def)
  qed
qed

lemma total_microseconds_mono:
  assumes "valid_datetime a" and "valid_datetime b" and "a < b"
  shows "total_microseconds a < total_microseconds b"
proof -
  define ta where "ta = ((hour a * 3600 + minute a * 60 + second a) * 1000000 + microsecond a)"
  define tb where "tb = ((hour b * 3600 + minute b * 60 + second b) * 1000000 + microsecond b)"
  have ea: "total_microseconds a = toordinal a * 86400000000 + ta"
    by (simp add: total_microseconds_def ta_def algebra_simps)
  have eb: "total_microseconds b = toordinal b * 86400000000 + tb"
    by (simp add: total_microseconds_def tb_def algebra_simps)
  from assms(1) have ra: "0 \<le> ta" "ta < 86400000000"
    unfolding ta_def valid_datetime_def by auto
  from assms(2) have rb: "0 \<le> tb" "tb < 86400000000"
    unfolding tb_def valid_datetime_def by auto
  from assms(3) consider (date) "(year a, month a, day a) < (year b, month b, day b)"
    | (time) "year a = year b" "month a = month b" "day a = day b"
        "(hour a, minute a, second a, microsecond a) < (hour b, minute b, second b, microsecond b)"
    by (auto simp: less_datetime_def dt_tuple_def less_prod_def order_le_less)
  then show ?thesis
  proof cases
    case date
    from toordinal_mono[OF assms(1,2) date] have "toordinal a + 1 \<le> toordinal b" by simp
    then have "(toordinal a + 1) * 86400000000 \<le> toordinal b * 86400000000" by simp
    then show ?thesis using ea eb ra rb by (simp add: algebra_simps)
  next
    case time
    have o: "toordinal a = toordinal b" using time(1-3) by (simp add: toordinal_def)
    from assms(1) have va: "0 \<le> minute a" "minute a < 60" "0 \<le> second a" "second a < 60"
      "0 \<le> microsecond a" "microsecond a < 1000000" by (auto simp: valid_datetime_def)
    from assms(2) have vb: "0 \<le> minute b" "minute b < 60" "0 \<le> second b" "second b < 60"
      "0 \<le> microsecond b" "microsecond b < 1000000" by (auto simp: valid_datetime_def)
    from time(4) consider "hour a < hour b"
      | "hour a = hour b" "minute a < minute b"
      | "hour a = hour b" "minute a = minute b" "second a < second b"
      | "hour a = hour b" "minute a = minute b" "second a = second b"
          "microsecond a < microsecond b"
      by (auto simp: less_prod_def order_le_less)
    then have "ta < tb"
      unfolding ta_def tb_def using va vb by cases simp_all
    then show ?thesis using ea eb o by simp
  qed
qed

lemma days_between_past_negative:
  assumes "valid_datetime a" and "valid_datetime b" and "a < b"
  shows "days_between a b < 0"
proof -
  have "total_microseconds a - total_microseconds b < 0"
    using total_microseconds_mono[OF assms] by simp
  then show ?thesis unfolding days_between_def by (simp add: div_neg_pos_less0)
qed

section \<open>Properties of the workload ranking and the urgency queue\<close>

lemma sort_mset_cong:
  fixes xs ys :: "'a::linorder list"
  shows "mset xs = mset ys \<Longrightarrow> sort xs = sort ys"
  by (metis sorted_list_of_multiset_mset)

text \<open>
  Claim C2, tested on the code. Three doctors are registered with no patients, as the
  request layer registers them. The first query for the two least busy doctors answers
  1 and 2 and leaves only doctor 3 in the ranking; the same query asked again answers 3
  alone: the read removes what it returns.
\<close>

theorem get_least_busy_doctors_drains:
  "get_least_busy_doctors
     (foldl add_doctor DoctorAnalytics_init
        [\<lparr>doctor_id = 1, name = ''A'', specialization = ''gp'', patient_count = 0\<rparr>,
         \<lparr>doctor_id = 2, name = ''B'', specialization = ''gp'', patient_count = 0\<rparr>,
         \<lparr>doctor_id = 3, name = ''C'', specialization = ''gp'', patient_count = 0\<rparr>]) 2
    = Inr ([1, 2],
        \<lparr>specialization_map =
           [(''gp'', [\<lparr>doctor_id = 1, name = ''A'', specialization = ''gp'', patient_count = 0\<rparr>,
                      \<lparr>doctor_id = 2, name = ''B'', specialization = ''gp'', patient_count = 0\<rparr>,
                      \<lparr>doctor_id = 3, name = ''C'', specialization = ''gp'', patient_count = 0\<rparr>])],
         workload_heap = [(0, 3)]\<rparr>)
   \<and> get_least_busy_doctors
        \<lparr>specialization_map =
           [(''gp'', [\<lparr>doctor_id = 1, name = ''A'', specialization = ''gp'', patient_count = 0\<rparr>,
                      \<lparr>doctor_id = 2, name = ''B'', specialization = ''gp'', patient_count = 0\<rparr>,
                      \<lparr>doctor_id = 3, name = ''C'', specialization = ''gp'', patient_count = 0\<rparr>])],
         workload_heap = [(0, 3)]\<rparr> 2
    = Inr ([3],
        \<lparr>specialization_map =
           [(''gp'', [\<lparr>doctor_id = 1, name = ''A'', specialization = ''gp'', patient_count = 0\<rparr>,
                      \<lparr>doctor_id = 2, name = ''B'', specialization = ''gp'', patient_count = 0\<rparr>,
                      \<lparr>doctor_id = 3, name = ''C'', specialization = ''gp'', patient_count = 0\<rparr>])],
         workload_heap = []\<rparr>)"
  by code_simp

text \<open>
  Claim C3. On every queue whose entry list is a heap, \<open>get_next_urgent_treatments\<close>
  returns normally, leaves the multiset of entries and the overdue set as they were, and
  the same call repeated at once returns the same list of treatment ids. Every queue
  reached from the empty one by additions and queries is such a queue.
\<close>

theorem get_next_urgent_treatments_non_destructive:
  "(is_heap (urgent_treatments q) \<longrightarrow>
      (\<exists>ids q1 q2. get_next_urgent_treatments q k = Inr (ids, q1)
         \<and> mset (urgent_treatments q1) = mset (urgent_treatments q)
         \<and> overdue_treatments q1 = overdue_treatments q
         \<and> get_next_urgent_treatments q1 k = Inr (ids, q2)))
   \<and> (\<exists>q0. tq_run TreatmentPriorityQueue_init evs = Inr q0 \<and> is_heap (urgent_treatments q0))"
proof (intro conjI impI)
  assume h: "is_heap (urgent_treatments q)"
  from get_next_urgent_props[OF h, of k] obtain q1 where
    q1: "get_next_urgent_treatments q k
           = Inr (map (\<lambda>e. snd (snd e)) (take (nat k) (sort (urgent_treatments q))), q1)"
        "is_heap (urgent_treatments q1)"
        "mset (urgent_treatments q1) = mset (urgent_treatments q)"
        "overdue_treatments q1 = overdue_treatments q" by blast
  from get_next_urgent_props[OF q1(2), of k] obtain q2 where
    q2: "get_next_urgent_treatments q1 k
           = Inr (map (\<lambda>e. snd (snd e)) (take (nat k) (sort (urgent_treatments q1))), q2)"
    by blast
  have "sort (urgent_treatments q1) = sort (urgent_treatments q)"
    by (rule sort_mset_cong[OF q1(3)])
  then show "\<exists>ids q1 q2. get_next_urgent_treatments q k = Inr (ids, q1)
         \<and> mset (urgent_treatments q1) = mset (urgent_treatments q)
         \<and> overdue_treatments q1 = overdue_treatments q
         \<and> get_next_urgent_treatments q1 k = Inr (ids, q2)"
    using q1 q2 by auto
next
  have "is_heap (urgent_treatments TreatmentPriorityQueue_init)"
    by (simp add: TreatmentPriorityQueue_init_def is_heap_Nil)
  from tq_run_props[OF this, of evs]
  show "\<exists>q0. tq_run TreatmentPriorityQueue_init evs = Inr q0 \<and> is_heap (urgent_treatments q0)"
    by blast
qed

theorem get_next_urgent_treatments_non_destructive_witness:
  "is_heap [(5 :: int, DateTime 2025 1 6 9 0 0 0, 1 :: int), (21, DateTime 2025 1 2 9 0 0 0, 2)]
   \<and> (\<exists>ids q1 q2.
        get_next_urgent_treatments
          \<lparr>urgent_treatments = [(5, DateTime 2025 1 6 9 0 0 0, 1), (21, DateTime 2025 1 2 9 0 0 0, 2)],
           overdue_treatments = {}\<rparr> 1 = Inr (ids, q1)
        \<and> mset (urgent_treatments q1)
            = {#(5, DateTime 2025 1 6 9 0 0 0, 1), (21, DateTime 2025 1 2 9 0 0 0, 2)#}
        \<and> get_next_urgent_treatments q1 1 = Inr (ids, q2))"
proof -
  let ?h = "[(5 :: int, DateTime 2025 1 6 9 0 0 0, 1 :: int), (21, DateTime 2025 1 2 9 0 0 0, 2)]"
  have "\<And>i. 0 < i \<and> i < length ?h \<Longrightarrow> i = 1" by auto
  then have h: "is_heap ?h" unfolding is_heap_def by auto
  show ?thesis
    using get_next_urgent_treatments_non_destructive
            [of "\<lparr>urgent_treatments = ?h, overdue_treatments = {}\<rparr>" 1 "[]"] h
    by auto
qed

text \<open>
  Claim C4. The priority of a treatment is the number of whole days from the clock
  reading to the follow-up date, plus 0 for CRITICAL, 10 for MODERATE and 20 for MILD;
  the number of days is negative when the follow-up date is before the clock reading.
  After any history of additions and queries, \<open>get_next_urgent_treatments k\<close> returns
  the treatment ids of the first \<open>k\<close> added entries in increasing order of
  (priority, follow_up_date, treatment_id). With the clock at 2025-01-01 09:00, a
  CRITICAL treatment due in 5 days has priority 5, a MILD one due in 1 day has priority
  21, a MILD one due a day ago has priority 19, and of the first two the query for one
  treatment returns the CRITICAL one.
\<close>

theorem get_next_urgent_treatments_priority_order:
  "calculate_priority follow_up_date sev now
     = days_between follow_up_date now
         + (case sev of CRITICAL \<Rightarrow> 0 | MODERATE \<Rightarrow> 10 | MILD \<Rightarrow> 20)
   \<and> (valid_datetime follow_up_date \<and> valid_datetime now \<and> follow_up_date < now
        \<longrightarrow> days_between follow_up_date now < 0)
   \<and> (\<exists>q q'. tq_run TreatmentPriorityQueue_init evs = Inr q
        \<and> mset (urgent_treatments q) = mset (added_entries evs)
        \<and> get_next_urgent_treatments q k
            = Inr (map (\<lambda>e. snd (snd e)) (take (nat k) (sort (added_entries evs))), q'))
   \<and> calculate_priority (DateTime 2025 1 6 9 0 0 0) CRITICAL (DateTime 2025 1 1 9 0 0 0) = 5
   \<and> calculate_priority (DateTime 2025 1 2 9 0 0 0) MILD (DateTime 2025 1 1 9 0 0 0) = 21
   \<and> calculate_priority (DateTime 2024 12 31 9 0 0 0) MILD (DateTime 2025 1 1 9 0 0 0) = 19
   \<and> (\<exists>q q'. tq_run TreatmentPriorityQueue_init
                 [AddTreatment 2 (DateTime 2025 1 2 9 0 0 0) MILD
                    (DateTime 2025 1 1 9 0 0 0) (DateTime 2025 1 1 9 0 0 0),
                  AddTreatment 1 (DateTime 2025 1 6 9 0 0 0) CRITICAL
                    (DateTime 2025 1 1 9 0 0 0) (DateTime 2025 1 1 9 0 0 0)] = Inr q
          \<and> get_next_urgent_treatments q 1 = Inr ([1], q'))"
proof (intro conjI)
  show "calculate_priority follow_up_date sev now
     = days_between follow_up_date now
         + (case sev of CRITICAL \<Rightarrow> 0 | MODERATE \<Rightarrow> 10 | MILD \<Rightarrow> 20)"
    by (simp add: calculate_priority_def severity_modifier_def)
next
  show "valid_datetime follow_up_date \<and> valid_datetime now \<and> follow_up_date < now
        \<longrightarrow> days_between follow_up_date now < 0"
    using days_between_past_negative by blast
next
  have "is_heap (urgent_treatments TreatmentPriorityQueue_init)"
    by (simp add: TreatmentPriorityQueue_init_def is_heap_Nil)
  from tq_run_props[OF this, of evs] obtain q where
    q: "tq_run TreatmentPriorityQueue_init evs = Inr q" "is_heap (urgent_treatments q)"
       "mset (urgent_treatments q) = mset (added_entries evs)"
    by (auto simp: TreatmentPriorityQueue_init_def)
  from get_next_urgent_props[OF q(2), of k] obtain q' where
    "get_next_urgent_treatments q k
       = Inr (map (\<lambda>e. snd (snd e)) (take (nat k) (sort (urgent_treatments q))), q')" by blast
  moreover have "sort (urgent_treatments q) = sort (added_entries evs)"
    by (rule sort_mset_cong[OF q(3)])
  ultimately show "\<exists>q q'. tq_run TreatmentPriorityQueue_init evs = Inr q
        \<and> mset (urgent_treatments q) = mset (added_entries evs)
        \<and> get_next_urgent_treatments q k
            = Inr (map (\<lambda>e. snd (snd e)) (take (nat k) (sort (added_entries evs))), q')"
    using q(1,3) by auto
next
  show "calculate_priority (DateTime 2025 1 6 9 0 0 0) CRITICAL (DateTime 2025 1 1 9 0 0 0) = 5"
    by code_simp
next
  show "calculate_priority (DateTime 2025 1 2 9 0 0 0) MILD (DateTime 2025 1 1 9 0 0 0) = 21"
    by code_simp
next
  show "calculate_priority (DateTime 2024 12 31 9 0 0 0) MILD (DateTime 2025 1 1 9 0 0 0) = 19"
    by code_simp
next
  have r: "tq_run TreatmentPriorityQueue_init
                 [AddTreatment 2 (DateTime 2025 1 2 9 0 0 0) MILD
                    (DateTime 2025 1 1 9 0 0 0) (DateTime 2025 1 1 9 0 0 0),
                  AddTreatment 1 (DateTime 2025 1 6 9 0 0 0) CRITICAL
                    (DateTime 2025 1 1 9 0 0 0) (DateTime 2025 1 1 9 0 0 0)]
      = Inr \<lparr>urgent_treatments = [(5, DateTime 2025 1 6 9 0 0 0, 1), (21, DateTime 2025 1 2 9 0 0 0, 2)],
             overdue_treatments = {}\<rparr>"
    by code_simp
  have g: "get_next_urgent_treatments
       \<lparr>urgent_treatments = [(5, DateTime 2025 1 6 9 0 0 0, 1), (21, DateTime 2025 1 2 9 0 0 0, 2)],
        overdue_treatments = {}\<rparr> 1
     = Inr ([1], \<lparr>urgent_treatments = [(5, DateTime 2025 1 6 9 0 0 0, 1), (21, DateTime 2025 1 2 9 0 0 0, 2)],
        overdue_treatments = {}\<rparr>)"
    by code_simp
  show "\<exists>q q'. tq_run TreatmentPriorityQueue_init
                 [AddTreatment 2 (DateTime 2025 1 2 9 0 0 0) MILD
                    (DateTime 2025 1 1 9 0 0 0) (DateTime 2025 1 1 9 0 0 0),
                  AddTreatment 1 (DateTime 2025 1 6 9 0 0 0) CRITICAL
                    (DateTime 2025 1 1 9 0 0 0) (DateTime 2025 1 1 9 0 0 0)] = Inr q
          \<and> get_next_urgent_treatments q 1 = Inr ([1], q')"
    using r g by blast
qed

theorem get_next_urgent_treatments_priority_order_witness:
  "days_between (DateTime 2025 2 20 0 0 0 0) (DateTime 2025 2 27 0 0 0 0) < 0
   \<and> (\<exists>q q'. tq_run TreatmentPriorityQueue_init
       [AddTreatment 7 (DateTime 2025 3 1 0 0 0 0) MODERATE
          (DateTime 2025 2 27 0 0 0 0) (DateTime 2025 2 27 0 0 0 0),
        AddTreatment 8 (DateTime 2025 2 20 0 0 0 0) MILD
          (DateTime 2025 2 27 0 0 0 0) (DateTime 2025 2 27 0 0 0 0),
        NextUrgent 1,
        AddTreatment 9 (DateTime 2025 3 9 0 0 0 0) CRITICAL
          (DateTime 2025 2 27 0 0 0 0) (DateTime 2025 2 27 0 0 0 0)] = Inr q
     \<and> get_next_urgent_treatments q 2 = Inr ([9, 7], q'))"
proof -
  let ?evs = "[AddTreatment 7 (DateTime 2025 3 1 0 0 0 0) MODERATE
          (DateTime 2025 2 27 0 0 0 0) (DateTime 2025 2 27 0 0 0 0),
        AddTreatment 8 (DateTime 2025 2 20 0 0 0 0) MILD
          (DateTime 2025 2 27 0 0 0 0) (DateTime 2025 2 27 0 0 0 0),
        NextUrgent 1,
        AddTreatment 9 (DateTime 2025 3 9 0 0 0 0) CRITICAL
          (DateTime 2025 2 27 0 0 0 0) (DateTime 2025 2 27 0 0 0 0)]"
  note t = get_next_urgent_treatments_priority_order
            [of "DateTime 2025 2 20 0 0 0 0" MILD "DateTime 2025 2 27 0 0 0 0" ?evs 2]
  have v: "valid_datetime (DateTime 2025 2 20 0 0 0 0) \<and> valid_datetime (DateTime 2025 2 27 0 0 0 0)
        \<and> DateTime 2025 2 20 0 0 0 0 < DateTime 2025 2 27 0 0 0 0"
    by code_simp
  have s: "map (\<lambda>e. snd (snd e)) (take (nat 2) (sort (added_entries ?evs))) = [9, 7]"
    by code_simp
  from t v have "days_between (DateTime 2025 2 20 0 0 0 0) (DateTime 2025 2 27 0 0 0 0) < 0"
    by blast
  moreover from t s have "\<exists>q q'. tq_run TreatmentPriorityQueue_init ?evs = Inr q
     \<and> get_next_urgent_treatments q 2 = Inr ([9, 7], q')"
    by metis
  ultimately show ?thesis by blast
qed

text \<open>
  Claim C5. After any history of additions and queries, the overdue set is exactly the
  set of treatment ids that were added with a follow-up date strictly before the clock
  reading taken by that \<open>add_treatment\<close> call. No query and no later clock reading
  enters: an id added only with dates not yet due is not in the set, whatever the time
  of the query.
\<close>

theorem overdue_decided_at_insert:
  "\<exists>q. tq_run TreatmentPriorityQueue_init evs = Inr q
     \<and> get_overdue_treatments q
         = {tid. \<exists>fu sev now1 now2. AddTreatment tid fu sev now1 now2 \<in> set evs \<and> fu < now2}"
proof -
  have "is_heap (urgent_treatments TreatmentPriorityQueue_init)"
    by (simp add: TreatmentPriorityQueue_init_def is_heap_Nil)
  from tq_run_props[OF this, of evs] obtain q where
    "tq_run TreatmentPriorityQueue_init evs = Inr q" "overdue_treatments q = added_overdue evs"
    by (auto simp: TreatmentPriorityQueue_init_def)
  then show ?thesis
    by (auto simp: get_overdue_treatments_def added_overdue_set)
qed

theorem overdue_decided_at_insert_witness:
  "\<exists>q. tq_run TreatmentPriorityQueue_init
       [AddTreatment 1 (DateTime 2025 1 1 0 0 0 0) MILD
          (DateTime 2025 1 5 0 0 0 0) (DateTime 2025 1 5 0 0 0 0),
        AddTreatment 2 (DateTime 2025 1 9 0 0 0 0) CRITICAL
          (DateTime 2025 1 5 0 0 0 0) (DateTime 2025 1 5 0 0 0 0),
        Overdue, NextUrgent 5, Overdue] = Inr q
     \<and> get_overdue_treatments q = {1} \<and> 2 \<notin> get_overdue_treatments q"
proof -
  let ?evs = "[AddTreatment 1 (DateTime 2025 1 1 0 0 0 0) MILD
          (DateTime 2025 1 5 0 0 0 0) (DateTime 2025 1 5 0 0 0 0),
        AddTreatment 2 (DateTime 2025 1 9 0 0 0 0) CRITICAL
          (DateTime 2025 1 5 0 0 0 0) (DateTime 2025 1 5 0 0 0 0),
        Overdue, NextUrgent 5, Overdue]"
  have a: "DateTime 2025 1 1 0 0 0 0 < DateTime 2025 1 5 0 0 0 0" by code_simp
  have b: "\<not> DateTime 2025 1 9 0 0 0 0 < DateTime 2025 1 5 0 0 0 0" by code_simp
  have "{tid. \<exists>fu sev now1 now2. AddTreatment tid fu sev now1 now2 \<in> set ?evs \<and> fu < now2} = {1}"
    using a b by auto
  then show ?thesis using overdue_decided_at_insert [of ?evs] by auto
qed

section \<open>Properties of the timeline index\<close>

lemma py_sort_reverse_snoc:
  "py_sort_reverse f (py_sort_reverse f xs @ [r]) = py_sort_reverse f (xs @ [r])"
  by (simp add: py_sort_reverse_def sort_key_id_if_sorted)

lemma mset_py_sort_reverse [simp]: "mset (py_sort_reverse f xs) = mset xs"
  by (simp add: py_sort_reverse_def)

lemma sorted_py_sort_reverse: "sorted_wrt (\<lambda>a b. f b \<le> f a) (py_sort_reverse f xs)"
proof -
  have "sorted_wrt (\<lambda>a b. f a \<le> f b) (sort_key f (rev xs))"
    using sorted_sort_key[of f "rev xs"] by (simp add: sorted_map)
  then show ?thesis by (simp add: py_sort_reverse_def sorted_wrt_rev)
qed

lemma dd_lookup_dict_set: "dd_lookup (dict_set d k v) dflt k' = (if k' = k then v else dd_lookup d dflt k')"
  by (simp add: dd_lookup_def map_of_dict_set)

lemma add_record_year:
  "dd_lookup (records_by_year (add_record t r)) [] y
     = (if year (record_date r) = y
        then py_sort_reverse record_date (dd_lookup (records_by_year t) [] y @ [r])
        else dd_lookup (records_by_year t) [] y)"
  by (simp add: add_record_def Let_def dd_lookup_dict_set)

lemma timeline_year_bucket:
  "dd_lookup (records_by_year (foldl add_record PatientTimeline_init rs)) [] y
     = py_sort_reverse record_date (filter (\<lambda>r. year (record_date r) = y) rs)"
proof (induction rs rule: rev_induct)
  case Nil
  then show ?case by (simp add: PatientTimeline_init_def dd_lookup_def py_sort_reverse_def)
next
  case (snoc r rs)
  then show ?case by (simp add: add_record_year py_sort_reverse_snoc)
qed

lemma get_records_by_year_fst:
  "fst (get_records_by_year t y) = dd_lookup (records_by_year t) [] y"
  by (simp add: get_records_by_year_def dd_getitem_def dd_lookup_def split: option.splits)

text \<open>
  Claim C8. After any sequence of \<open>add_record\<close> calls on a fresh timeline index, the
  query for year \<open>y\<close> returns the added records whose date lies in year \<open>y\<close>, each as
  often as it was added, in descending order of \<open>record_date\<close>; records with the same
  date stay in the order of their insertion. After records dated 2023-01-01, 2024-06-01
  and 2023-12-01, the query for 2023 returns the one of 2023-12-01 and then the one of
  2023-01-01.
\<close>

theorem get_records_by_year_sorted:
  "fst (get_records_by_year (foldl add_record PatientTimeline_init rs) y)
     = py_sort_reverse record_date (filter (\<lambda>r. year (record_date r) = y) rs)
   \<and> mset (fst (get_records_by_year (foldl add_record PatientTimeline_init rs) y))
       = mset (filter (\<lambda>r. year (record_date r) = y) rs)
   \<and> sorted_wrt (\<lambda>a b. record_date b \<le> record_date a)
        (fst (get_records_by_year (foldl add_record PatientTimeline_init rs) y))
   \<and> fst (get_records_by_year
            (foldl add_record PatientTimeline_init
               [HealthRecord_new 1 1 7 ''Flu'' (DateTime 2023 1 1 0 0 0 0) None,
                HealthRecord_new 2 1 7 ''Flu'' (DateTime 2024 6 1 0 0 0 0) None,
                HealthRecord_new 3 1 7 ''Flu'' (DateTime 2023 12 1 0 0 0 0) None]) 2023)
       = [HealthRecord_new 3 1 7 ''Flu'' (DateTime 2023 12 1 0 0 0 0) None,
          HealthRecord_new 1 1 7 ''Flu'' (DateTime 2023 1 1 0 0 0 0) None]"
proof -
  have e: "fst (get_records_by_year (foldl add_record PatientTimeline_init rs) y)
     = py_sort_reverse record_date (filter (\<lambda>r. year (record_date r) = y) rs)"
    by (simp add: get_records_by_year_fst timeline_year_bucket)
  have x: "fst (get_records_by_year
            (foldl add_record PatientTimeline_init
               [HealthRecord_new 1 1 7 ''Flu'' (DateTime 2023 1 1 0 0 0 0) None,
                HealthRecord_new 2 1 7 ''Flu'' (DateTime 2024 6 1 0 0 0 0) None,
                HealthRecord_new 3 1 7 ''Flu'' (DateTime 2023 12 1 0 0 0 0) None]) 2023)
       = [HealthRecord_new 3 1 7 ''Flu'' (DateTime 2023 12 1 0 0 0 0) None,
          HealthRecord_new 1 1 7 ''Flu'' (DateTime 2023 1 1 0 0 0 0) None]"
    by code_simp
  show ?thesis using e x sorted_py_sort_reverse[of record_date] by simp
qed

theorem get_records_by_year_sorted_witness:
  "map record_id (fst (get_records_by_year
       (foldl add_record PatientTimeline_init
          [HealthRecord_new 1 5 7 ''Flu'' (DateTime 2024 3 1 0 0 0 0) None,
           HealthRecord_new 2 5 8 ''Asthma'' (DateTime 2024 3 1 0 0 0 0) None,
           HealthRecord_new 3 5 7 ''Stroke'' (DateTime 2025 3 1 0 0 0 0) None,
           HealthRecord_new 4 5 7 ''Cough'' (DateTime 2024 9 9 0 0 0 0) None]) 2024))
     = [4, 1, 2]"
proof -
  have "map record_id (py_sort_reverse record_date (filter (\<lambda>r. year (record_date r) = 2024)
          [HealthRecord_new 1 5 7 ''Flu'' (DateTime 2024 3 1 0 0 0 0) None,
           HealthRecord_new 2 5 8 ''Asthma'' (DateTime 2024 3 1 0 0 0 0) None,
           HealthRecord_new 3 5 7 ''Stroke'' (DateTime 2025 3 1 0 0 0 0) None,
           HealthRecord_new 4 5 7 ''Cough'' (DateTime 2024 9 9 0 0 0 0) None])) = [4, 1, 2]"
    by code_simp
  then show ?thesis
    using get_records_by_year_sorted
      [of "[HealthRecord_new 1 5 7 ''Flu'' (DateTime 2024 3 1 0 0 0 0) None,
           HealthRecord_new 2 5 8 ''Asthma'' (DateTime 2024 3 1 0 0 0 0) None,
           HealthRecord_new 3 5 7 ''Stroke'' (DateTime 2025 3 1 0 0 0 0) None,
           HealthRecord_new 4 5 7 ''Cough'' (DateTime 2024 9 9 0 0 0 0) None]" 2024]
    by simp
qed

section \<open>Properties of the aggregation engine\<close>

lemma dict_set_twice: "dict_set (dict_set d k a) k b = dict_set d k b"
  by (induction d) auto

lemma dict_set_sum:
  assumes "g dflt = 0"
  shows "sum_list (map (\<lambda>kv. g (snd kv)) (dict_set d k v)) + g (dd_lookup d dflt k)
           = sum_list (map (\<lambda>kv. g (snd kv)) d) + (g v :: nat)"
  using assms by (induction d) (auto simp: dd_lookup_def)

lemma timeline_total_add_record: "timeline_total (add_record t r) = Suc (timeline_total t)"
proof -
  let ?g = "length :: HealthRecord list \<Rightarrow> nat"
  let ?yr = "year (record_date r)"
  let ?old = "dd_lookup (records_by_year t) [] ?yr"
  let ?rby1 = "dict_set (records_by_year t) ?yr (?old @ [r])"
  let ?rby2 = "dict_set ?rby1 ?yr (py_sort_reverse record_date (dd_lookup ?rby1 [] ?yr))"
  have 1: "sum_list (map (\<lambda>kv. ?g (snd kv)) ?rby1) + ?g ?old
         = sum_list (map (\<lambda>kv. ?g (snd kv)) (records_by_year t)) + ?g (?old @ [r])"
    by (rule dict_set_sum) simp
  have l: "dd_lookup ?rby1 [] ?yr = ?old @ [r]" by (simp add: dd_lookup_dict_set)
  have 2: "sum_list (map (\<lambda>kv. ?g (snd kv)) ?rby2) + ?g (dd_lookup ?rby1 [] ?yr)
         = sum_list (map (\<lambda>kv. ?g (snd kv)) ?rby1)
           + ?g (py_sort_reverse record_date (dd_lookup ?rby1 [] ?yr))"
    by (rule dict_set_sum) simp
  have "length (py_sort_reverse record_date (dd_lookup ?rby1 [] ?yr)) = length (?old @ [r])"
    unfolding l by (simp add: py_sort_reverse_def)
  with 1 2 l have "sum_list (map (\<lambda>kv. ?g (snd kv)) ?rby2)
      = Suc (sum_list (map (\<lambda>kv. ?g (snd kv)) (records_by_year t)))" by simp
  then show ?thesis by (simp add: timeline_total_def add_record_def Let_def)
qed

lemma severity_index_add_record:
  "dd_lookup (severity_index (add_record t r)) [] s
     = (if severity r = s then dd_lookup (severity_index t) [] s @ [r]
        else dd_lookup (severity_index t) [] s)"
  by (simp add: add_record_def Let_def dd_lookup_dict_set)

lemma severity_index_add_record_distinct:
  "distinct (map fst (severity_index t)) \<Longrightarrow> distinct (map fst (severity_index (add_record t r)))"
  by (simp add: add_record_def Let_def dict_set_distinct)

lemma dd_getitem_lookup:
  "dd_lookup (snd (dd_getitem d dflt k)) dflt k' = dd_lookup d dflt k'"
proof (cases "map_of d k")
  case None
  then have "snd (dd_getitem d dflt k) = d @ [(k, dflt)]" by (simp add: dd_getitem_def)
  then show ?thesis
    by (cases "map_of d k'") (auto simp: dd_lookup_def map_add_def split: option.splits)
next
  case (Some v)
  then show ?thesis by (simp add: dd_getitem_def)
qed

lemma dd_getitem_distinct:
  "distinct (map fst d) \<Longrightarrow> distinct (map fst (snd (dd_getitem d dflt k)))"
proof (cases "map_of d k")
  case None
  assume "distinct (map fst d)"
  moreover from None have "k \<notin> set (map fst d)" by (simp add: map_of_eq_None_iff)
  ultimately show ?thesis using None by (simp add: dd_getitem_def)
next
  case (Some v)
  assume "distinct (map fst d)"
  then show ?thesis using Some by (simp add: dd_getitem_def)
qed

lemma get_critical_records_props:
  "timeline_total (snd (get_critical_records t)) = timeline_total t
   \<and> dd_lookup (severity_index (snd (get_critical_records t))) [] s
        = dd_lookup (severity_index t) [] s
   \<and> (distinct (map fst (severity_index t))
        \<longrightarrow> distinct (map fst (severity_index (snd (get_critical_records t)))))"
proof -
  have e: "snd (get_critical_records t)
             = t\<lparr>severity_index := snd (dd_getitem (severity_index t) [] CRITICAL)\<rparr>"
    by (simp add: get_critical_records_def split: prod.splits)
  show ?thesis
    unfolding e by (simp add: timeline_total_def dd_getitem_lookup dd_getitem_distinct)
qed

lemma dict_has_map_of: "dict_has d k \<longleftrightarrow> map_of d k \<noteq> None"
  by (simp add: dict_has_def map_of_eq_None_iff)

lemma dd_lookup_Some: "map_of d k = Some v \<Longrightarrow> dd_lookup d dflt k = v"
  by (simp add: dd_lookup_def)

lemma dd_lookup_None: "map_of d k = None \<Longrightarrow> dd_lookup d dflt k = dflt"
  by (simp add: dd_lookup_def)

lemma dict_set_subset: "set (dict_set d k v) \<subseteq> insert (k, v) (set d)"
  by (induction d) (auto split: if_splits)

lemma dd_lookup_in_set:
  "dd_lookup d dflt k = dflt \<or> (k, dd_lookup d dflt k) \<in> set d"
  by (auto simp: dd_lookup_def dest: map_of_SomeD split: option.splits)

lemma timeline_total_init: "timeline_total PatientTimeline_init = 0"
  by (simp add: timeline_total_def PatientTimeline_init_def)

lemma severity_index_init: "dd_lookup (severity_index PatientTimeline_init) [] s = []"
  by (simp add: dd_lookup_def PatientTimeline_init_def)

lemma add_health_record_eq:
  assumes "cache_ok 100 (agg_cache agg)"
  shows "\<exists>c. cache_ok 100 c
     \<and> add_health_record agg rd
         = Inr (agg\<lparr>user_timelines :=
                       dict_set (user_timelines agg) (rd_user_id rd)
                         (add_record
                            (dd_lookup (user_timelines agg) PatientTimeline_init (rd_user_id rd))
                            (HealthRecord_new (rd_record_id rd) (rd_user_id rd) (rd_doctor_id rd)
                               (rd_diagnosis rd) (rd_record_date rd) (rd_file_path rd))),
                   agg_cache := c\<rparr>)"
proof -
  let ?uid = "rd_user_id rd"
  let ?rcd = "HealthRecord_new (rd_record_id rd) (rd_user_id rd) (rd_doctor_id rd)
                               (rd_diagnosis rd) (rd_record_date rd) (rd_file_path rd)"
  have uid: "user_id ?rcd = ?uid" by (simp add: HealthRecord_new_def)
  from put_ok[OF assms, of "''user_timeline_'' @ str_int ?uid" None] obtain c where
    c: "put (agg_cache agg) (''user_timeline_'' @ str_int ?uid) None = Inr c" "cache_ok 100 c"
    by auto
  show ?thesis
  proof (cases "dict_has (user_timelines agg) ?uid")
    case True
    then obtain t where t: "map_of (user_timelines agg) ?uid = Some t"
      by (auto simp: dict_has_map_of)
    then have "add_health_record agg rd
         = Inr (agg\<lparr>user_timelines := dict_set (user_timelines agg) ?uid (add_record t ?rcd),
                   agg_cache := c\<rparr>)"
      using True c(1) by (simp add: add_health_record_def Let_def uid)
    then show ?thesis using c(2) dd_lookup_Some[OF t] by auto
  next
    case False
    then have n: "map_of (user_timelines agg) ?uid = None" by (simp add: dict_has_map_of)
    have "add_health_record agg rd
         = Inr (agg\<lparr>user_timelines :=
                       dict_set (user_timelines agg) ?uid (add_record PatientTimeline_init ?rcd),
                   agg_cache := c\<rparr>)"
      using False c(1)
      by (simp add: add_health_record_def Let_def uid map_of_dict_set dict_set_twice)
    then show ?thesis using c(2) dd_lookup_None[OF n] by auto
  qed
qed

lemma add_health_record_inv:
  assumes "agg_inv agg rds"
  shows "\<exists>agg'. add_health_record agg rd = Inr agg' \<and> agg_inv agg' (rds @ [rd])"
proof -
  let ?uid = "rd_user_id rd"
  let ?rcd = "HealthRecord_new (rd_record_id rd) (rd_user_id rd) (rd_doctor_id rd)
                               (rd_diagnosis rd) (rd_record_date rd) (rd_file_path rd)"
  let ?uts = "user_timelines agg"
  let ?t0 = "dd_lookup ?uts PatientTimeline_init ?uid"
  let ?t1 = "add_record ?t0 ?rcd"
  let ?uts' = "dict_set ?uts ?uid ?t1"
  from assms have inv:
    "cache_ok 100 (agg_cache agg)" "distinct (map fst ?uts)"
    "set (map fst ?uts) = rd_user_id ` set rds"
    "sum_list (map (\<lambda>ut. timeline_total (snd ut)) ?uts) = length rds"
    "\<And>s. sev_count ?uts s = length (filter (\<lambda>rd. calculate_severity (rd_diagnosis rd) = s) rds)"
    "\<And>ut. ut \<in> set ?uts \<Longrightarrow> distinct (map fst (severity_index (snd ut)))"
    by (auto simp: agg_inv_def)
  from add_health_record_eq[OF inv(1), of rd] obtain c where
    c: "cache_ok 100 c" "add_health_record agg rd = Inr (agg\<lparr>user_timelines := ?uts', agg_cache := c\<rparr>)"
    by blast
  have sev: "severity ?rcd = calculate_severity (rd_diagnosis rd)"
    by (simp add: HealthRecord_new_def)
  have d0: "distinct (map fst (severity_index ?t0))"
    using dd_lookup_in_set[of ?uts PatientTimeline_init ?uid] inv(6)[of "(?uid, ?t0)"]
    by (auto simp: PatientTimeline_init_def)
  have 1: "distinct (map fst ?uts')" using inv(2) by (rule dict_set_distinct)
  have 2: "set (map fst ?uts') = rd_user_id ` set (rds @ [rd])"
    using inv(3) by (simp add: dict_set_keys del: set_map)
  have "sum_list (map (\<lambda>ut. timeline_total (snd ut)) ?uts') + timeline_total ?t0
          = sum_list (map (\<lambda>ut. timeline_total (snd ut)) ?uts) + timeline_total ?t1"
    by (rule dict_set_sum) (rule timeline_total_init)
  then have 3: "sum_list (map (\<lambda>ut. timeline_total (snd ut)) ?uts') = length (rds @ [rd])"
    using inv(4) by (simp add: timeline_total_add_record)
  have 4: "sev_count ?uts' s
             = length (filter (\<lambda>rd. calculate_severity (rd_diagnosis rd) = s) (rds @ [rd]))" for s
  proof -
    let ?g = "\<lambda>t. length (dd_lookup (severity_index t) [] s)"
    have "sum_list (map (\<lambda>ut. ?g (snd ut)) ?uts') + ?g ?t0
          = sum_list (map (\<lambda>ut. ?g (snd ut)) ?uts) + ?g ?t1"
      by (rule dict_set_sum) (simp add: severity_index_init)
    then show ?thesis
      using inv(5)[of s]
      by (cases "calculate_severity (rd_diagnosis rd) = s")
         (simp_all add: sev_count_def severity_index_add_record sev)
  qed
  have 5: "distinct (map fst (severity_index (snd ut)))" if "ut \<in> set ?uts'" for ut
  proof -
    from that dict_set_subset[of ?uts ?uid ?t1] have "ut = (?uid, ?t1) \<or> ut \<in> set ?uts" by auto
    then show ?thesis
    proof
      assume "ut = (?uid, ?t1)"
      then show ?thesis using severity_index_add_record_distinct[OF d0] by simp
    next
      assume "ut \<in> set ?uts"
      then show ?thesis by (rule inv(6))
    qed
  qed
  have "agg_inv (agg\<lparr>user_timelines := ?uts', agg_cache := c\<rparr>) (rds @ [rd])"
    unfolding agg_inv_def using c(1) 1 2 3 4 5 by simp
  then show ?thesis using c(2) by simp
qed

lemma summary_dict_snd: "snd (summary_dict t now) = snd (get_critical_records t)"
  by (simp add: summary_dict_def split: prod.splits)

lemma get_user_health_summary_cases:
  assumes "cache_ok N (agg_cache agg)" and "1 \<le> N"
  shows "\<exists>c1. cache_ok N c1 \<and>
     (case dd_lookup (cache (agg_cache agg)) None (''user_summary_'' @ str_int uid) of
        Some s \<Rightarrow> get_user_health_summary agg uid now = Inr (Summary s, agg\<lparr>agg_cache := c1\<rparr>)
      | None \<Rightarrow>
          (case map_of (user_timelines agg) uid of
             None \<Rightarrow> get_user_health_summary agg uid now
                       = Inr (ErrorDict ''No health records found'', agg\<lparr>agg_cache := c1\<rparr>)
           | Some t \<Rightarrow> get_user_health_summary agg uid now
                       = Inr (Summary (fst (summary_dict t now)),
                              agg\<lparr>user_timelines :=
                                     dict_set (user_timelines agg) uid (snd (summary_dict t now)),
                                  agg_cache := c1\<rparr>)))"
proof -
  let ?key = "''user_summary_'' @ str_int uid"
  from get_ok[OF assms(1), of ?key] obtain v c1 where
    g: "get (agg_cache agg) ?key = Inr (v, c1)" "cache_ok N c1"
       "v = (case map_of (cache (agg_cache agg)) ?key of None \<Rightarrow> None | Some w \<Rightarrow> w)"
    by blast
  have v: "dd_lookup (cache (agg_cache agg)) None ?key = v" using g(3) by (simp add: dd_lookup_def)
  show ?thesis
  proof (cases v)
    case (Some s)
    then show ?thesis using g v by (auto simp: get_user_health_summary_def)
  next
    case None
    show ?thesis
    proof (cases "map_of (user_timelines agg) uid")
      case n: None
      then have "\<not> dict_has (user_timelines agg) uid" by (simp add: dict_has_map_of)
      then show ?thesis using g v None n by (auto simp: get_user_health_summary_def)
    next
      case (Some t)
      then have h: "dict_has (user_timelines agg) uid" by (simp add: dict_has_map_of)
      from put_ok[OF g(2) assms(2), of ?key "Some (fst (summary_dict t now))"] obtain c2 where
        c2: "put c1 ?key (Some (fst (summary_dict t now))) = Inr c2" "cache_ok N c2" by blast
      have "get_user_health_summary agg uid now
              = Inr (Summary (fst (summary_dict t now)),
                     agg\<lparr>user_timelines :=
                            dict_set (user_timelines agg) uid (snd (summary_dict t now)),
                         agg_cache := c2\<rparr>)"
      proof -
        obtain s t1 where sd: "summary_dict t now = (s, t1)" by fastforce
        show ?thesis using g(1) None h Some c2(1)
          by (simp add: get_user_health_summary_def sd)
      qed
      then show ?thesis using c2(2) v None Some by auto
    qed
  qed
qed

lemma get_user_health_summary_inv:
  assumes "agg_inv agg rds"
  shows "\<exists>res agg'. get_user_health_summary agg uid now = Inr (res, agg') \<and> agg_inv agg' rds"
proof -
  let ?uts = "user_timelines agg"
  from assms have inv:
    "cache_ok 100 (agg_cache agg)" "distinct (map fst ?uts)"
    "set (map fst ?uts) = rd_user_id ` set rds"
    "sum_list (map (\<lambda>ut. timeline_total (snd ut)) ?uts) = length rds"
    "\<And>s. sev_count ?uts s = length (filter (\<lambda>rd. calculate_severity (rd_diagnosis rd) = s) rds)"
    "\<And>ut. ut \<in> set ?uts \<Longrightarrow> distinct (map fst (severity_index (snd ut)))"
    by (auto simp: agg_inv_def)
  have only_cache: "agg_inv (agg\<lparr>agg_cache := c\<rparr>) rds" if "cache_ok 100 c" for c
    using assms that by (simp add: agg_inv_def)
  from get_user_health_summary_cases[OF inv(1), of uid now] obtain c1 where
    c1: "cache_ok 100 c1"
     "case dd_lookup (cache (agg_cache agg)) None (''user_summary_'' @ str_int uid) of
        Some s \<Rightarrow> get_user_health_summary agg uid now = Inr (Summary s, agg\<lparr>agg_cache := c1\<rparr>)
      | None \<Rightarrow>
          (case map_of (user_timelines agg) uid of
             None \<Rightarrow> get_user_health_summary agg uid now
                       = Inr (ErrorDict ''No health records found'', agg\<lparr>agg_cache := c1\<rparr>)
           | Some t \<Rightarrow> get_user_health_summary agg uid now
                       = Inr (Summary (fst (summary_dict t now)),
                              agg\<lparr>user_timelines :=
                                     dict_set (user_timelines agg) uid (snd (summary_dict t now)),
                                  agg_cache := c1\<rparr>))"
    by auto
  show ?thesis
  proof (cases "dd_lookup (cache (agg_cache agg)) None (''user_summary_'' @ str_int uid)")
    case (Some s)
    then show ?thesis using c1 only_cache by auto
  next
    case None
    show ?thesis
    proof (cases "map_of ?uts uid")
      case n: None
      then show ?thesis using c1 None only_cache by auto
    next
      case (Some t)
      let ?t1 = "snd (summary_dict t now)"
      let ?uts' = "dict_set ?uts uid ?t1"
      have r: "get_user_health_summary agg uid now
                 = Inr (Summary (fst (summary_dict t now)),
                        agg\<lparr>user_timelines := ?uts', agg_cache := c1\<rparr>)"
        using c1(2) None Some by simp
      have tin: "(uid, t) \<in> set ?uts" using Some by (rule map_of_SomeD)
      note p = get_critical_records_props[of t]
      have look: "dd_lookup ?uts PatientTimeline_init uid = t" by (rule dd_lookup_Some[OF Some])
      have 1: "distinct (map fst ?uts')" using inv(2) by (rule dict_set_distinct)
      have "uid \<in> set (map fst ?uts)" using tin by (metis fst_conv image_eqI set_map)
      then have 2: "set (map fst ?uts') = rd_user_id ` set rds"
        using inv(3) by (auto simp: dict_set_keys simp del: set_map)
      have "sum_list (map (\<lambda>ut. timeline_total (snd ut)) ?uts')
               + timeline_total (dd_lookup ?uts PatientTimeline_init uid)
          = sum_list (map (\<lambda>ut. timeline_total (snd ut)) ?uts) + timeline_total ?t1"
        by (rule dict_set_sum) (rule timeline_total_init)
      then have 3: "sum_list (map (\<lambda>ut. timeline_total (snd ut)) ?uts') = length rds"
        using inv(4) p by (simp add: look summary_dict_snd)
      have 4: "sev_count ?uts' s
             = length (filter (\<lambda>rd. calculate_severity (rd_diagnosis rd) = s) rds)" for s
      proof -
        let ?g = "\<lambda>t. length (dd_lookup (severity_index t) [] s)"
        have "sum_list (map (\<lambda>ut. ?g (snd ut)) ?uts') + ?g (dd_lookup ?uts PatientTimeline_init uid)
          = sum_list (map (\<lambda>ut. ?g (snd ut)) ?uts) + ?g ?t1"
          by (rule dict_set_sum) (simp add: severity_index_init)
        then show ?thesis
          using inv(5)[of s] get_critical_records_props[of t s]
          by (simp add: sev_count_def look summary_dict_snd)
      qed
      have 5: "distinct (map fst (severity_index (snd ut)))" if "ut \<in> set ?uts'" for ut
      proof -
        from that dict_set_subset[of ?uts uid ?t1] have "ut = (uid, ?t1) \<or> ut \<in> set ?uts" by auto
        then show ?thesis
        proof
          assume "ut = (uid, ?t1)"
          then show ?thesis using inv(6)[OF tin] p by (simp add: summary_dict_snd)
        next
          assume "ut \<in> set ?uts"
          then show ?thesis by (rule inv(6))
        qed
      qed
      have "agg_inv (agg\<lparr>user_timelines := ?uts', agg_cache := c1\<rparr>) rds"
        unfolding agg_inv_def using c1(1) 1 2 3 4 5 by simp
      then show ?thesis using r by simp
    qed
  qed
qed

lemma agg_run_inv:
  assumes "agg_inv agg rds"
  shows "\<exists>agg'. agg_run agg evs = Inr agg' \<and> agg_inv agg' (rds @ added_records evs)"
  using assms
proof (induction evs arbitrary: agg rds)
  case Nil
  then show ?case by simp
next
  case (Cons ev evs)
  show ?case
  proof (cases ev)
    case (AddHealthRecord rd)
    from add_health_record_inv[OF Cons.prems, of rd] obtain a1 where
      a1: "add_health_record agg rd = Inr a1" "agg_inv a1 (rds @ [rd])" by blast
    from Cons.IH[OF a1(2)] a1(1) AddHealthRecord show ?thesis by (auto simp: agg_step_def)
  next
    case (GetUserHealthSummary uid now)
    from get_user_health_summary_inv[OF Cons.prems, of uid now] obtain res a1 where
      a1: "get_user_health_summary agg uid now = Inr (res, a1)" "agg_inv a1 rds" by blast
    from Cons.IH[OF a1(2)] a1(1) GetUserHealthSummary show ?thesis by (auto simp: agg_step_def)
  qed
qed

lemma agg_inv_init: "agg_inv HealthMetricsAggregator_init []"
  by (simp add: agg_inv_def HealthMetricsAggregator_init_def cache_ok_init sev_count_def)

lemma severity_value_inj [simp]: "severity_value a = severity_value b \<longleftrightarrow> a = b"
  by (cases a; cases b) (simp_all add: severity_value_def)

lemma sev_dist_inner:
  "distinct (map fst idx) \<Longrightarrow>
     dd_lookup (foldl severity_dist_add sd idx) 0 (severity_value s)
       = dd_lookup sd 0 (severity_value s) + length (dd_lookup idx [] s)"
proof (induction idx arbitrary: sd)
  case Nil
  then show ?case by (simp add: dd_lookup_def)
next
  case (Cons item idx)
  obtain sev rs where item: "item = (sev, rs)" by (cases item) auto
  have l: "dd_lookup (severity_dist_add sd item) 0 (severity_value s)
             = (if sev = s then dd_lookup sd 0 (severity_value s) + length rs
                else dd_lookup sd 0 (severity_value s))"
    by (auto simp: severity_dist_add_def dd_lookup_dict_set item)
  have r: "dd_lookup (item # idx) [] s = (if sev = s then rs else dd_lookup idx [] s)"
    by (simp add: dd_lookup_def item)
  have z: "sev = s \<Longrightarrow> dd_lookup idx [] s = []"
    using Cons.prems by (simp add: item dd_lookup_None map_of_eq_None_iff)
  from Cons.IH[of "severity_dist_add sd item"] Cons.prems
  show ?case using l r z by simp
qed

lemma sev_dist_outer:
  "(\<forall>ut \<in> set uts. distinct (map fst (severity_index (snd ut)))) \<Longrightarrow>
     dd_lookup (foldl (\<lambda>sd ut. foldl severity_dist_add sd (severity_index (snd ut))) sd uts) 0
        (severity_value s)
       = dd_lookup sd 0 (severity_value s) + sev_count uts s"
proof (induction uts arbitrary: sd)
  case Nil
  then show ?case by (simp add: sev_count_def)
next
  case (Cons ut uts)
  then show ?case by (simp add: sev_dist_inner sev_count_def)
qed

lemma sev_dist_inner_keys:
  "set (map fst (foldl severity_dist_add sd idx)) \<subseteq> set (map fst sd) \<union> range severity_value"
proof (induction idx arbitrary: sd)
  case Nil
  then show ?case by simp
next
  case (Cons item idx)
  have "set (map fst (severity_dist_add sd item)) \<subseteq> set (map fst sd) \<union> range severity_value"
    by (auto simp: severity_dist_add_def dict_set_keys simp del: set_map)
  moreover have "set (map fst (foldl severity_dist_add sd (item # idx)))
      \<subseteq> set (map fst (severity_dist_add sd item)) \<union> range severity_value"
    using Cons.IH[of "severity_dist_add sd item"] by simp
  ultimately show ?case by blast
qed

lemma sev_dist_outer_keys:
  "set (map fst (foldl (\<lambda>sd ut. foldl severity_dist_add sd (severity_index (snd ut))) sd uts))
     \<subseteq> set (map fst sd) \<union> range severity_value"
proof (induction uts arbitrary: sd)
  case Nil
  then show ?case by simp
next
  case (Cons ut uts)
  have "set (map fst (foldl (\<lambda>sd ut. foldl severity_dist_add sd (severity_index (snd ut))) sd
                         (ut # uts)))
      \<subseteq> set (map fst (foldl severity_dist_add sd (severity_index (snd ut))))
          \<union> range severity_value"
    using Cons.IH[of "foldl severity_dist_add sd (severity_index (snd ut))"] by simp
  then show ?case using sev_dist_inner_keys[of sd "severity_index (snd ut)"] by blast
qed

text \<open>
  Claim C9, as the code has it. After any history of \<open>add_health_record\<close> and summary
  calls, no call having raised, \<open>get_system_analytics\<close> returns: \<open>total_users\<close>, the
  number of distinct user ids among the added records; \<open>total_records\<close>, the number of
  added records; a \<open>severity_distribution\<close> whose keys are tier names and whose entry for
  a tier, read as 0 when the tier has no entry, is the number of added records of that
  tier; and \<open>avg_records_per_user\<close>, the quotient of the two totals, which is 0 when no
  record was added.
\<close>

theorem get_system_analytics_totals:
  "\<exists>agg. agg_run HealthMetricsAggregator_init evs = Inr agg
     \<and> total_users (get_system_analytics agg) = card (rd_user_id ` set (added_records evs))
     \<and> total_records (get_system_analytics agg) = length (added_records evs)
     \<and> (\<forall>s. dd_lookup (severity_distribution (get_system_analytics agg)) 0 (severity_value s)
            = length (filter (\<lambda>rd. calculate_severity (rd_diagnosis rd) = s) (added_records evs)))
     \<and> set (map fst (severity_distribution (get_system_analytics agg))) \<subseteq> range severity_value
     \<and> avg_records_per_user (get_system_analytics agg)
        = (if added_records evs = [] then 0
           else of_nat (length (added_records evs))
                  / of_nat (card (rd_user_id ` set (added_records evs))))"
proof -
  let ?rds = "added_records evs"
  from agg_run_inv[OF agg_inv_init, of evs] obtain agg where
    agg: "agg_run HealthMetricsAggregator_init evs = Inr agg" "agg_inv agg ?rds" by auto
  let ?uts = "user_timelines agg"
  let ?a = "get_system_analytics agg"
  from agg(2) have inv:
    "distinct (map fst ?uts)"
    "set (map fst ?uts) = rd_user_id ` set ?rds"
    "sum_list (map (\<lambda>ut. timeline_total (snd ut)) ?uts) = length ?rds"
    "\<And>s. sev_count ?uts s = length (filter (\<lambda>rd. calculate_severity (rd_diagnosis rd) = s) ?rds)"
    "\<forall>ut \<in> set ?uts. distinct (map fst (severity_index (snd ut)))"
    by (auto simp: agg_inv_def)
  have "length ?uts = card (set (map fst ?uts))"
    using inv(1) by (metis distinct_card length_map)
  then have users: "total_users ?a = card (rd_user_id ` set ?rds)"
    using inv(2) by (simp add: get_system_analytics_def Let_def)
  have records: "total_records ?a = length ?rds"
    using inv(3) by (simp add: get_system_analytics_def Let_def)
  have dist: "dd_lookup (severity_distribution ?a) 0 (severity_value s)
            = length (filter (\<lambda>rd. calculate_severity (rd_diagnosis rd) = s) ?rds)" for s
    using sev_dist_outer[OF inv(5), of "[]" s] inv(4)[of s]
    by (simp add: get_system_analytics_def Let_def severity_dist_of_def dd_lookup_def)
  have keys: "set (map fst (severity_distribution ?a)) \<subseteq> range severity_value"
    using sev_dist_outer_keys[of "[]" ?uts]
    by (simp add: get_system_analytics_def Let_def severity_dist_of_def)
  have e: "?rds = [] \<longleftrightarrow> total_users ?a = 0"
    using users by (auto simp: card_eq_0_iff)
  have avg: "avg_records_per_user ?a
        = (if ?rds = [] then 0
           else of_nat (length ?rds) / of_nat (card (rd_user_id ` set ?rds)))"
  proof (cases "?rds = []")
    case True
    then have "length ?uts = 0" using e by (simp add: get_system_analytics_def Let_def)
    then show ?thesis using True by (simp add: get_system_analytics_def Let_def)
  next
    case False
    then have "0 < total_users ?a" using e by simp
    then show ?thesis using False users records
      by (simp add: get_system_analytics_def Let_def)
  qed
  show ?thesis using agg(1) users records dist keys avg by blast
qed

theorem get_system_analytics_totals_witness:
  "\<exists>agg. agg_run HealthMetricsAggregator_init
       [AddHealthRecord \<lparr>rd_record_id = 1, rd_user_id = 4, rd_doctor_id = 7,
          rd_diagnosis = ''Heart murmur'', rd_record_date = DateTime 2024 5 2 0 0 0 0,
          rd_file_path = None\<rparr>,
        GetUserHealthSummary 4 (DateTime 2024 5 3 0 0 0 0),
        AddHealthRecord \<lparr>rd_record_id = 2, rd_user_id = 9, rd_doctor_id = 7,
          rd_diagnosis = ''Flu'', rd_record_date = DateTime 2024 5 2 0 0 0 0,
          rd_file_path = None\<rparr>,
        AddHealthRecord \<lparr>rd_record_id = 3, rd_user_id = 4, rd_doctor_id = 8,
          rd_diagnosis = ''Cough'', rd_record_date = DateTime 2024 5 9 0 0 0 0,
          rd_file_path = None\<rparr>] = Inr agg
     \<and> total_users (get_system_analytics agg) = 2
     \<and> total_records (get_system_analytics agg) = 3
     \<and> dd_lookup (severity_distribution (get_system_analytics agg)) 0 ''mild'' = 2
     \<and> dd_lookup (severity_distribution (get_system_analytics agg)) 0 ''moderate'' = 0
     \<and> avg_records_per_user (get_system_analytics agg) = 3 / 2"
proof -
  let ?r1 = "\<lparr>rd_record_id = 1, rd_user_id = 4, rd_doctor_id = 7,
          rd_diagnosis = ''Heart murmur'', rd_record_date = DateTime 2024 5 2 0 0 0 0,
          rd_file_path = None\<rparr>"
  let ?r2 = "\<lparr>rd_record_id = 2, rd_user_id = 9, rd_doctor_id = 7,
          rd_diagnosis = ''Flu'', rd_record_date = DateTime 2024 5 2 0 0 0 0,
          rd_file_path = None\<rparr>"
  let ?r3 = "\<lparr>rd_record_id = 3, rd_user_id = 4, rd_doctor_id = 8,
          rd_diagnosis = ''Cough'', rd_record_date = DateTime 2024 5 9 0 0 0 0,
          rd_file_path = None\<rparr>"
  let ?evs = "[AddHealthRecord ?r1, GetUserHealthSummary 4 (DateTime 2024 5 3 0 0 0 0),
               AddHealthRecord ?r2, AddHealthRecord ?r3]"
  have a: "added_records ?evs = [?r1, ?r2, ?r3]" by simp
  have "rd_user_id ` set [?r1, ?r2, ?r3] = {4, 9}" by auto
  then have c: "card (rd_user_id ` set [?r1, ?r2, ?r3]) = 2" by simp
  have m: "length (filter (\<lambda>rd. calculate_severity (rd_diagnosis rd) = MILD) [?r1, ?r2, ?r3]) = 2"
    by code_simp
  have n: "length (filter (\<lambda>rd. calculate_severity (rd_diagnosis rd) = MODERATE) [?r1, ?r2, ?r3]) = 0"
    by code_simp
  have v: "severity_value MILD = ''mild''" "severity_value MODERATE = ''moderate''"
    by (simp_all add: severity_value_def)
  from get_system_analytics_totals [of ?evs] obtain agg where
    agg: "agg_run HealthMetricsAggregator_init ?evs = Inr agg"
     "total_users (get_system_analytics agg) = card (rd_user_id ` set (added_records ?evs))"
     "total_records (get_system_analytics agg) = length (added_records ?evs)"
     "\<And>s. dd_lookup (severity_distribution (get_system_analytics agg)) 0 (severity_value s)
            = length (filter (\<lambda>rd. calculate_severity (rd_diagnosis rd) = s) (added_records ?evs))"
     "avg_records_per_user (get_system_analytics agg)
        = (if added_records ?evs = [] then 0
           else of_nat (length (added_records ?evs))
                  / of_nat (card (rd_user_id ` set (added_records ?evs))))"
    by blast
  have "total_users (get_system_analytics agg) = 2" using agg(2) c unfolding a by simp
  moreover have "total_records (get_system_analytics agg) = 3" using agg(3) unfolding a by simp
  moreover have "dd_lookup (severity_distribution (get_system_analytics agg)) 0 ''mild'' = 2"
    using agg(4)[of MILD] m unfolding a v by simp
  moreover have "dd_lookup (severity_distribution (get_system_analytics agg)) 0 ''moderate'' = 0"
    using agg(4)[of MODERATE] n unfolding a v by simp
  moreover have "avg_records_per_user (get_system_analytics agg) = 3 / 2"
    using agg(5) c unfolding a by simp
  ultimately show ?thesis using agg(1) by blast
qed

text \<open>
  Claim C9 as stated says that the distribution maps each tier to its count. After one
  record with diagnosis "Flu" the distribution is \<open>{'mild': 1}\<close>: the tiers MODERATE
  and CRITICAL have no entry at all.
\<close>

theorem get_system_analytics_omits_empty_tiers:
  "(case agg_run HealthMetricsAggregator_init
           [AddHealthRecord \<lparr>rd_record_id = 1, rd_user_id = 1, rd_doctor_id = 7,
              rd_diagnosis = ''Flu'', rd_record_date = DateTime 2024 5 2 0 0 0 0,
              rd_file_path = None\<rparr>] of
      Inl e \<Rightarrow> None
    | Inr agg \<Rightarrow>
        Some (severity_distribution (get_system_analytics agg),
              map_of (severity_distribution (get_system_analytics agg)) (severity_value CRITICAL),
              map_of (severity_distribution (get_system_analytics agg)) (severity_value MODERATE)))
   = Some ([(''mild'', 1)], None, None)"
  by code_simp

text \<open>
  Claim C1, tested on the code. User 1 gets a record, asks for the summary (which is
  computed and cached under \<open>user_summary_1\<close>), gets a second record (which writes
  \<open>None\<close> under \<open>user_timeline_1\<close>), and asks again. The timeline of user 1 holds two
  records, and the second summary is the cached one with \<open>total_records = 1\<close>.
\<close>

theorem add_health_record_keeps_stale_summary:
  "(case agg_run HealthMetricsAggregator_init
           [AddHealthRecord \<lparr>rd_record_id = 1, rd_user_id = 1, rd_doctor_id = 7,
              rd_diagnosis = ''Type 2 Diabetes'', rd_record_date = DateTime 2023 1 1 0 0 0 0,
              rd_file_path = None\<rparr>,
            GetUserHealthSummary 1 (DateTime 2024 7 1 0 0 0 0),
            AddHealthRecord \<lparr>rd_record_id = 2, rd_user_id = 1, rd_doctor_id = 8,
              rd_diagnosis = ''Flu'', rd_record_date = DateTime 2024 6 20 0 0 0 0,
              rd_file_path = None\<rparr>] of
      Inl e \<Rightarrow> None
    | Inr agg \<Rightarrow>
        (case get_user_health_summary agg 1 (DateTime 2024 7 1 0 0 0 0) of
           Inl e \<Rightarrow> None
         | Inr (res, agg') \<Rightarrow>
             Some (res,
                   map (\<lambda>ut. (fst ut, timeline_total (snd ut))) (user_timelines agg),
                   map fst (cache (agg_cache agg)))))
   = Some (Summary \<lparr>summary.total_records = 1, critical_conditions = 1,
                     most_visited_doctors = [(7, 1)],
                     common_conditions = [(''Type 2 Diabetes'', 1)],
                     recent_activity = 0\<rparr>,
           [(1, 2)],
           [''user_timeline_1'', ''user_summary_1''])"
  by code_simp

lemma put_None_then_get:
  assumes "put c k None = Inr c1"
  shows "\<exists>c2. get c1 k = Inr (None, c2)"
proof -
  from assms have "dict_has (cache c1) k \<and> k \<in> set (access_order c1)
                     \<and> map_of (cache c1) k = Some None"
    by (auto simp: put_def deque_remove_def dict_has_def dict_set_keys map_of_dict_set
          split: if_splits list.splits simp del: set_map)
  then show ?thesis by (simp add: get_def deque_remove_def)
qed

text \<open>
  Claim C10. If \<open>put(k, None)\<close> returns, the next \<open>get(k)\<close> returns \<open>None\<close>, which is
  also what \<open>get\<close> returns for a key that is not in the cache. On the summary path: for
  a well-formed cache of capacity at least 1 that has no entry under the summary key of
  user \<open>uid\<close>, storing \<open>None\<close> under that key succeeds and creates an entry, and the
  summary query returns the same result with that entry as without it.
\<close>

theorem none_entry_reads_as_missing:
  "(\<forall>c1. put c k None = Inr c1 \<longrightarrow> (\<exists>c2. get c1 k = Inr (None, c2)))
   \<and> (\<not> dict_has (cache c) k \<longrightarrow> get c k = Inr (None, c))
   \<and> (cache_ok N (agg_cache agg) \<and> 1 \<le> N
        \<and> \<not> dict_has (cache (agg_cache agg)) (''user_summary_'' @ str_int uid) \<longrightarrow>
       (\<exists>c'. put (agg_cache agg) (''user_summary_'' @ str_int uid) None = Inr c'
          \<and> dict_has (cache c') (''user_summary_'' @ str_int uid)
          \<and> (\<exists>res a1 a2. get_user_health_summary agg uid now = Inr (res, a1)
                \<and> get_user_health_summary (agg\<lparr>agg_cache := c'\<rparr>) uid now = Inr (res, a2))))"
proof (intro conjI allI impI)
  fix c1 assume "put c k None = Inr c1"
  then show "\<exists>c2. get c1 k = Inr (None, c2)" by (rule put_None_then_get)
next
  assume "\<not> dict_has (cache c) k"
  then show "get c k = Inr (None, c)" by (simp add: get_def)
next
  let ?key = "''user_summary_'' @ str_int uid"
  assume a: "cache_ok N (agg_cache agg) \<and> 1 \<le> N \<and> \<not> dict_has (cache (agg_cache agg)) ?key"
  then have ok: "cache_ok N (agg_cache agg)" and N: "1 \<le> N"
    and miss: "\<not> dict_has (cache (agg_cache agg)) ?key" by auto
  from put_ok[OF ok N, of ?key None] obtain c' where
    c': "put (agg_cache agg) ?key None = Inr c'" "cache_ok N c'" "map_of (cache c') ?key = Some None"
    by blast
  have has: "dict_has (cache c') ?key" using c'(3) by (simp add: dict_has_map_of)
  have l1: "dd_lookup (cache (agg_cache agg)) None ?key = None"
    using miss by (simp add: dd_lookup_def dict_has_map_of)
  have l2: "dd_lookup (cache (agg_cache (agg\<lparr>agg_cache := c'\<rparr>))) None ?key = None"
    using c'(3) by (simp add: dd_lookup_def)
  have ok2: "cache_ok N (agg_cache (agg\<lparr>agg_cache := c'\<rparr>))" using c'(2) by simp
  note s1 = get_user_health_summary_cases[OF ok N, of uid now, unfolded l1]
  note s2 = get_user_health_summary_cases[OF ok2 N, of uid now, unfolded l2]
  have "\<exists>res a1 a2. get_user_health_summary agg uid now = Inr (res, a1)
                \<and> get_user_health_summary (agg\<lparr>agg_cache := c'\<rparr>) uid now = Inr (res, a2)"
    using s1 s2 by (cases "map_of (user_timelines agg) uid") auto
  then show "\<exists>c'. put (agg_cache agg) ?key None = Inr c'
          \<and> dict_has (cache c') ?key
          \<and> (\<exists>res a1 a2. get_user_health_summary agg uid now = Inr (res, a1)
                \<and> get_user_health_summary (agg\<lparr>agg_cache := c'\<rparr>) uid now = Inr (res, a2))"
    using c'(1) has by blast
qed

theorem none_entry_reads_as_missing_witness:
  "(\<exists>c1 c2. put (cache_init 2 :: nat HealthDataCache) ''k'' None = Inr c1
        \<and> get c1 ''k'' = Inr (None, c2))
   \<and> get (cache_init 2 :: nat HealthDataCache) ''k'' = Inr (None, cache_init 2)
   \<and> (\<exists>c' res a1 a2.
        put (agg_cache HealthMetricsAggregator_init) (''user_summary_'' @ str_int 1) None = Inr c'
        \<and> get_user_health_summary HealthMetricsAggregator_init 1 (DateTime 2024 1 1 0 0 0 0)
              = Inr (res, a1)
        \<and> get_user_health_summary (HealthMetricsAggregator_init\<lparr>agg_cache := c'\<rparr>) 1
              (DateTime 2024 1 1 0 0 0 0) = Inr (res, a2))"
proof -
  let ?c = "cache_init 2 :: nat HealthDataCache"
  note t = none_entry_reads_as_missing
             [of ?c "''k''" 100 HealthMetricsAggregator_init 1 "DateTime 2024 1 1 0 0 0 0"]
  have p: "put ?c ''k'' None
             = Inr \<lparr>cache = [(''k'', None)], access_order = [''k''], max_size = 2\<rparr>"
    by code_simp
  have m: "\<not> dict_has (cache ?c) ''k''" by (simp add: cache_init_def dict_has_def)
  have ok: "cache_ok 100 (agg_cache HealthMetricsAggregator_init) \<and> (1::int) \<le> 100
        \<and> \<not> dict_has (cache (agg_cache HealthMetricsAggregator_init))
              (''user_summary_'' @ str_int 1)"
    by (simp add: HealthMetricsAggregator_init_def cache_ok_init)
       (simp add: cache_init_def dict_has_def)
  from t p have 1: "\<exists>c1 c2. put ?c ''k'' None = Inr c1 \<and> get c1 ''k'' = Inr (None, c2)"
    by blast
  from t m have 2: "get ?c ''k'' = Inr (None, ?c)" by blast
  from t ok have 3: "\<exists>c'. put (agg_cache HealthMetricsAggregator_init)
                          (''user_summary_'' @ str_int 1) None = Inr c'
          \<and> dict_has (cache c') (''user_summary_'' @ str_int 1)
          \<and> (\<exists>res a1 a2.
                get_user_health_summary HealthMetricsAggregator_init 1
                   (DateTime 2024 1 1 0 0 0 0) = Inr (res, a1)
                \<and> get_user_health_summary (HealthMetricsAggregator_init\<lparr>agg_cache := c'\<rparr>) 1
                     (DateTime 2024 1 1 0 0 0 0) = Inr (res, a2))"
    by blast
  show ?thesis using 1 2 3 by blast
qed

end
